theory Spec2Isabelle
  imports Main "HOL-Library.AList"
begin

section \<open>Values and dictionaries\<close>

text \<open>
  JavaScript values as the persister sees them. Entities, collections and
  deferred-identifier placeholders (\<open>EntityIdentifier\<close>) are objects with identity:
  a value holds their address, the objects themselves live in the state.
\<close>

datatype val =
    VUndefined
  | VNull
  | VBool bool
  | VNum int
  | VStr string
  | VList "val list"
  | VObj "(string \<times> val) list"
  | VEntity nat
  | VCollection nat
  | VIdentifier nat

type_synonym dict = "(string \<times> val) list"

text \<open>\<open>obj[k]\<close>: a missing key reads as \<open>undefined\<close>.\<close>

definition getProp :: "dict \<Rightarrow> string \<Rightarrow> val" where
  "getProp d k = (case map_of d k of None \<Rightarrow> VUndefined | Some v \<Rightarrow> v)"

text \<open>\<open>obj[k] = v\<close>: an existing key keeps its position, a new key is appended.\<close>

definition setProp :: "dict \<Rightarrow> string \<Rightarrow> val \<Rightarrow> dict" where
  "setProp d k v = AList.update k v d"

text \<open>JavaScript truthiness, as used by \<open>!x\<close>, \<open>x && y\<close> and \<open>x ? a : b\<close>.\<close>

fun truthy :: "val \<Rightarrow> bool" where
  "truthy VUndefined = False"
| "truthy VNull = False"
| "truthy (VBool b) = b"
| "truthy (VNum n) = (n \<noteq> 0)"
| "truthy (VStr s) = (s \<noteq> [])"
| "truthy _ = True"

text \<open>
  Modelled from the spec: \<open>Utils.isDefined(data, true)\<close> is not part of the source file.
  A value is "defined" (an explicit value, a key that is set) when it is neither
  \<open>undefined\<close> nor \<open>null\<close>.
\<close>

fun isDefined :: "val \<Rightarrow> bool" where
  "isDefined VUndefined = False"
| "isDefined VNull = False"
| "isDefined _ = True"

text \<open>\<open>xs[0]\<close> used as a property key: on an empty array it is the key \<open>undefined\<close>.\<close>

definition firstKey :: "string list \<Rightarrow> string" where
  "firstKey ks = (case ks of [] \<Rightarrow> ''undefined'' | k # _ \<Rightarrow> k)"

section \<open>Data model\<close>

text \<open>
  \<open>EntityProperty\<close>: the computed-value hooks receive the entity and are modelled as
  pure functions of its fields; \<open>customType.convertToJSValue(value, platform)\<close> is a
  function of the value.
\<close>

record entity_property =
  p_name :: string
  p_fieldNames :: "string list option"
  p_primary :: bool
  p_onCreate :: "(dict \<Rightarrow> val) option"
  p_onUpdate :: "(dict \<Rightarrow> val) option"
  p_customType :: "(val \<Rightarrow> val) option"

text \<open>
  \<open>EntityMetadata\<close>: \<open>properties\<close> is a dictionary keyed by each descriptor's own name,
  kept here as the list of its values in insertion order (\<open>Object.values\<close>);
  \<open>meta.properties[k]\<close> is \<open>lookupProperty\<close>.
\<close>

record entity_metadata =
  m_name :: string
  m_primaryKeys :: "string list"
  m_compositePK :: bool
  m_versionProperty :: "string option"
  m_properties :: "entity_property list"

definition lookupProperty :: "entity_metadata \<Rightarrow> string \<Rightarrow> entity_property option" where
  "lookupProperty meta k = find (\<lambda>q. p_name q = k) (m_properties meta)"

text \<open>
  An entity with its wrapper (\<open>__helper\<close>): type descriptor, identity token, fields,
  and the populated and initialized flags.
\<close>

record entity =
  e_meta :: entity_metadata
  e_uuid :: string
  e_props :: dict
  e_populated :: bool
  e_initialized :: bool

datatype ChangeSetType = CREATE | UPDATE | DELETE

record change_set =
  cs_name :: string
  cs_type :: ChangeSetType
  cs_payload :: dict
  cs_entity :: nat
  cs_persisted :: bool

text \<open>
  \<open>QueryResult\<close>, from the spec's driver interface: affected-row count, generated
  insert id and returned row are each optional.
\<close>

record query_result =
  affectedRows :: val
  insertId :: val
  row :: "dict option"

type_synonym ctx = "nat option"

text \<open>One driver call with its arguments and what the driver answered.\<close>

datatype event =
    NativeInsert string dict ctx "string + query_result"
  | NativeUpdate string val dict ctx "string + query_result"
  | NativeDelete string val ctx "string + query_result"
  | FindOne string val "string list" ctx "string + dict option"

text \<open>
  The driver is an external collaborator: each primitive answers with a failure (\<open>Inl\<close>,
  the driver's error) or a result, and may depend on every call made so far.
\<close>

record driver =
  nativeInsert :: "event list \<Rightarrow> string \<Rightarrow> dict \<Rightarrow> ctx \<Rightarrow> string + query_result"
  nativeUpdate :: "event list \<Rightarrow> string \<Rightarrow> val \<Rightarrow> dict \<Rightarrow> ctx \<Rightarrow> string + query_result"
  nativeDelete :: "event list \<Rightarrow> string \<Rightarrow> val \<Rightarrow> ctx \<Rightarrow> string + query_result"
  findOne :: "event list \<Rightarrow> string \<Rightarrow> val \<Rightarrow> string list \<Rightarrow> ctx \<Rightarrow> string + dict option"

text \<open>
  The persister's collaborators (its constructor arguments). The identifier map sends an
  identity token to the address of its placeholder. The hydrator is represented by its
  per-property coercion, and \<open>Utils.getPrimaryKeyHash\<close>, which is not part of the source
  file, is a parameter.
\<close>

record persister =
  driver :: driver
  identifierMap :: "string \<Rightarrow> nat option"
  metadata :: "string \<Rightarrow> entity_metadata option"
  hydrateValue :: "entity_property \<Rightarrow> val \<Rightarrow> val"
  getPrimaryKeyHash :: "string list \<Rightarrow> string"

text \<open>
  The mutable world: change sets, entities, collections (their populated flag) and
  placeholder cells by address, and the log of driver calls. A placeholder
  (\<open>EntityIdentifier\<close>, a class outside the source file) is a cell: \<open>getValue()\<close> reads
  \<open>identifiers st i\<close> and \<open>setValue(v)\<close> stores \<open>v\<close> there.
\<close>

record state =
  changeSets :: "nat \<Rightarrow> change_set"
  entities :: "nat \<Rightarrow> entity"
  collections :: "nat \<Rightarrow> bool"
  identifiers :: "nat \<Rightarrow> val"
  calls :: "event list"

datatype error = DriverError string | OptimisticLockError nat | TypeError

section \<open>Wrapper accessors and helpers\<close>

definition setEntityProp :: "nat \<Rightarrow> string \<Rightarrow> val \<Rightarrow> state \<Rightarrow> state" where
  "setEntityProp r k v st =
     st\<lparr>entities := (entities st)(r := (entities st r)\<lparr>e_props := setProp (e_props (entities st r)) k v\<rparr>)\<rparr>"

definition setPayload :: "nat \<Rightarrow> string \<Rightarrow> val \<Rightarrow> state \<Rightarrow> state" where
  "setPayload c k v st =
     st\<lparr>changeSets := (changeSets st)(c := (changeSets st c)\<lparr>cs_payload := setProp (cs_payload (changeSets st c)) k v\<rparr>)\<rparr>"

text \<open>
  Modelled from the spec: the wrapper's \<open>populated()\<close> is not part of the source file. It
  sets the entity's populated flag.
\<close>

definition populated :: "nat \<Rightarrow> state \<Rightarrow> state" where
  "populated r st = st\<lparr>entities := (entities st)(r := (entities st r)\<lparr>e_populated := True\<rparr>)\<rparr>"

text \<open>
  Modelled from the spec: \<open>Utils.getPrimaryKeyCond\<close> is not part of the source file. The
  condition "primary key equals the entity's primary key" is the object that maps each
  key name to the entity's value for it.
\<close>

definition getPrimaryKeyCond :: "dict \<Rightarrow> string list \<Rightarrow> dict" where
  "getPrimaryKeyCond props pks = foldl (\<lambda>acc k. setProp acc k (getProp props k)) [] pks"

text \<open>
  Modelled from the spec: the wrapper's \<open>__primaryKey\<close> getter is not part of the source
  file. The primary-key value is scalar (the value of the single key property) or
  composite (the condition over all key properties).
\<close>

definition primaryKey :: "entity \<Rightarrow> val" where
  "primaryKey e =
     (let pks = m_primaryKeys (e_meta e)
      in if length pks > 1 then VObj (getPrimaryKeyCond (e_props e) pks)
         else getProp (e_props e) (firstKey pks))"

text \<open>
  Modelled from the spec: the wrapper's \<open>__primaryKey\<close> setter is not part of the source
  file. Assigning the primary key writes the first key property of the entity's type.
\<close>

definition setPrimaryKey :: "nat \<Rightarrow> val \<Rightarrow> state \<Rightarrow> state" where
  "setPrimaryKey r v st = setEntityProp r (firstKey (m_primaryKeys (e_meta (entities st r)))) v st"

text \<open>
  Modelled from the spec: the wrapper's \<open>__primaryKeys\<close> getter is not part of the source
  file. It is the entity's ordered tuple of key values.
\<close>

definition primaryKeys :: "entity \<Rightarrow> val list" where
  "primaryKeys e = map (getProp (e_props e)) (m_primaryKeys (e_meta e))"

text \<open>\<open>!meta.versionProperty\<close> is false exactly for a non-empty property name.\<close>

definition versionOf :: "entity_metadata \<Rightarrow> string option" where
  "versionOf meta = (case m_versionProperty meta of None \<Rightarrow> None | Some vp \<Rightarrow> if vp = [] then None else Some vp)"

text \<open>Sequential iteration that an exception leaves: \<open>forEach\<close> and \<open>for ... of\<close> with \<open>await\<close>.\<close>

fun forEach :: "('a \<Rightarrow> state \<Rightarrow> error option \<times> state) \<Rightarrow> 'a list \<Rightarrow> state \<Rightarrow> error option \<times> state" where
  "forEach f [] st = (None, st)"
| "forEach f (x # xs) st =
     (case f x st of
        (Some e, st') \<Rightarrow> (Some e, st')
      | (None, st') \<Rightarrow> forEach f xs st')"

section \<open>ChangeSetPersister\<close>

text \<open>\<open>prop.customType ? prop.customType.convertToJSValue(value, platform) : value\<close>\<close>

definition convertInsertId :: "entity_property \<Rightarrow> val \<Rightarrow> val" where
  "convertInsertId prop v = (case p_customType prop of Some conv \<Rightarrow> conv v | None \<Rightarrow> v)"

definition mapPrimaryKey :: "persister \<Rightarrow> entity_metadata \<Rightarrow> val \<Rightarrow> nat \<Rightarrow> state \<Rightarrow> error option \<times> state" where
  "mapPrimaryKey p meta v c st =
     (case lookupProperty meta (firstKey (m_primaryKeys meta)) of
        None \<Rightarrow> (Some TypeError, st)
      | Some prop \<Rightarrow>
          let insertId = convertInsertId prop v;
              r = cs_entity (changeSets st c);
              pk = primaryKey (entities st r);
              st1 = setPrimaryKey r (if isDefined pk then pk else insertId) st
          in (case identifierMap p (e_uuid (entities st1 r)) of
                None \<Rightarrow> (Some TypeError, st1)
              | Some i \<Rightarrow>
                  (None, st1\<lparr>identifiers := (identifiers st1)(i := getProp (e_props (entities st1 r)) (p_name prop))\<rparr>)))"

text \<open>
  The callback of the \<open>forEach\<close> in \<open>markAsPopulated\<close>. \<open>Utils.isEntity\<close> and
  \<open>Utils.isCollection\<close>, which are not part of the source file, are read off the value's
  constructor: a directly held related entity or collection is a reference to one.
\<close>

definition markProp :: "nat \<Rightarrow> state \<Rightarrow> entity_property \<Rightarrow> state" where
  "markProp r s prop =
     (case getProp (e_props (entities s r)) (p_name prop) of
        VEntity r' \<Rightarrow> populated r' s
      | VCollection k \<Rightarrow> s\<lparr>collections := (collections s)(k := True)\<rparr>
      | _ \<Rightarrow> s)"

definition markAsPopulated :: "nat \<Rightarrow> entity_metadata \<Rightarrow> state \<Rightarrow> state" where
  "markAsPopulated c meta st =
     (let r = cs_entity (changeSets st c)
      in foldl (markProp r) (populated r st) (m_properties meta))"

definition updateEntity :: "persister \<Rightarrow> entity_metadata \<Rightarrow> nat \<Rightarrow> ctx \<Rightarrow> state \<Rightarrow> (string + query_result) \<times> state" where
  "updateEntity p meta c tx st =
     (let cs = changeSets st c;
          e = entities st (cs_entity cs);
          cond = (case versionOf meta of
                    None \<Rightarrow> primaryKey e
                  | Some vp \<Rightarrow>
                      if \<not> truthy (getProp (e_props e) vp) then primaryKey e
                      else VObj (setProp (getPrimaryKeyCond (e_props e) (m_primaryKeys meta)) vp (getProp (e_props e) vp)));
          res = nativeUpdate (driver p) (calls st) (cs_name cs) cond (cs_payload cs) tx
      in (res, st\<lparr>calls := calls st @ [NativeUpdate (cs_name cs) cond (cs_payload cs) tx res]\<rparr>))"

text \<open>Both callers pass the driver's result, so \<open>res\<close> is never \<open>undefined\<close> here.\<close>

definition processOptimisticLock :: "persister \<Rightarrow> entity_metadata \<Rightarrow> nat \<Rightarrow> query_result \<Rightarrow> ctx \<Rightarrow> state \<Rightarrow> error option \<times> state" where
  "processOptimisticLock p meta c res tx st =
     (case versionOf meta of
        None \<Rightarrow> (None, st)
      | Some vp \<Rightarrow>
          let cs = changeSets st c; r = cs_entity cs
          in if cs_type cs = UPDATE \<and> \<not> truthy (affectedRows res) then (Some (OptimisticLockError r), st)
             else
               let pk = primaryKey (entities st r);
                   found = findOne (driver p) (calls st) (m_name meta) pk [vp] tx;
                   st1 = st\<lparr>calls := calls st @ [FindOne (m_name meta) pk [vp] tx found]\<rparr>
               in (case found of
                     Inl err \<Rightarrow> (Some (DriverError err), st1)
                   | Inr None \<Rightarrow> (Some TypeError, st1)
                   | Inr (Some e) \<Rightarrow> (None, setEntityProp r vp (getProp e vp) st1)))"

definition processProperty :: "persister \<Rightarrow> nat \<Rightarrow> entity_property \<Rightarrow> state \<Rightarrow> error option \<times> state" where
  "processProperty p c prop st =
     (let st1 = (case getProp (cs_payload (changeSets st c)) (p_name prop) of
                   VIdentifier i \<Rightarrow> setPayload c (p_name prop) (identifiers st i) st
                 | _ \<Rightarrow> st);
          r = cs_entity (changeSets st1 c);
          created =
            (case p_onCreate prop of
               None \<Rightarrow> (None, st1)
             | Some f \<Rightarrow>
                 if cs_type (changeSets st1 c) = CREATE then
                   let v = f (e_props (entities st1 r));
                       st2 = setEntityProp r (p_name prop) v (setPayload c (p_name prop) v st1)
                   in if p_primary prop
                      then mapPrimaryKey p (e_meta (entities st2 r)) (getProp (e_props (entities st2 r)) (p_name prop)) c st2
                      else (None, st2)
                 else (None, st1))
      in (case created of
            (Some err, st3) \<Rightarrow> (Some err, st3)
          | (None, st3) \<Rightarrow>
              (case p_onUpdate prop of
                 None \<Rightarrow> (None, st3)
               | Some g \<Rightarrow>
                   if cs_type (changeSets st3 c) = UPDATE then
                     let v = g (e_props (entities st3 r))
                     in (None, setEntityProp r (p_name prop) v (setPayload c (p_name prop) v st3))
                   else (None, st3))))"

definition processProperties :: "persister \<Rightarrow> nat \<Rightarrow> state \<Rightarrow> error option \<times> state" where
  "processProperties p c st =
     (case metadata p (cs_name (changeSets st c)) of
        None \<Rightarrow> (Some TypeError, st)
      | Some meta \<Rightarrow> forEach (processProperty p c) (m_properties meta) st)"

text \<open>
  Modelled from the spec: the hydrator is not part of the source file. Hydrating a
  property writes the value that the partial row data holds under the property's name
  into the entity's field of that name, through the hydrator's coercion for the
  property; a property without a value in the data is left alone.
\<close>

definition hydrateProperty :: "persister \<Rightarrow> nat \<Rightarrow> dict \<Rightarrow> state \<Rightarrow> entity_property \<Rightarrow> state" where
  "hydrateProperty p r data s prop =
     (case map_of data (p_name prop) of
        None \<Rightarrow> s
      | Some v \<Rightarrow> setEntityProp r (p_name prop) (hydrateValue p prop v) s)"

text \<open>
  Modelled from the spec: \<open>hydrator.hydrate(entity, meta, data, false, true)\<close> is not part
  of the source file. It hydrates every property of the type that \<open>data\<close> has a value
  for.
\<close>

definition hydrate :: "persister \<Rightarrow> nat \<Rightarrow> entity_metadata \<Rightarrow> dict \<Rightarrow> state \<Rightarrow> state" where
  "hydrate p r meta data st = foldl (hydrateProperty p r data) st (m_properties meta)"

text \<open>
  The callback of the \<open>reduce\<close> in \<open>mapReturnedValues\<close>: \<open>rw\<close> is the returned row and
  \<open>props\<close> the entity's fields, which the reduction reads and never writes.
\<close>

definition collectReturned :: "dict \<Rightarrow> dict \<Rightarrow> dict \<Rightarrow> entity_property \<Rightarrow> dict" where
  "collectReturned rw props data prop =
     (case p_fieldNames prop of
        None \<Rightarrow> data
      | Some fs \<Rightarrow>
          if truthy (getProp rw (firstKey fs)) \<and> \<not> isDefined (getProp props (p_name prop))
          then setProp data (p_name prop) (getProp rw (firstKey fs))
          else data)"

definition returnedData :: "dict \<Rightarrow> dict \<Rightarrow> entity_property list \<Rightarrow> dict" where
  "returnedData rw props ps = foldl (collectReturned rw props) [] ps"

definition mapReturnedValues :: "persister \<Rightarrow> nat \<Rightarrow> query_result \<Rightarrow> entity_metadata \<Rightarrow> state \<Rightarrow> state" where
  "mapReturnedValues p r res meta st =
     (case row res of
        None \<Rightarrow> st
      | Some rw \<Rightarrow>
          if rw \<noteq> [] then hydrate p r meta (returnedData rw (e_props (entities st r)) (m_properties meta)) st
          else st)"

text \<open>
  \<open>metadata.find(name)!\<close> may be \<open>undefined\<close>; it is dereferenced only where the code
  first reads one of its fields, which is after the driver call in \<open>persistNewEntity\<close>.
\<close>

definition persistNewEntity :: "persister \<Rightarrow> ctx \<Rightarrow> nat \<Rightarrow> state \<Rightarrow> error option \<times> state" where
  "persistNewEntity p tx c st =
     (let cs = changeSets st c;
          r = cs_entity cs;
          reply = nativeInsert (driver p) (calls st) (cs_name cs) (cs_payload cs) tx;
          st1 = st\<lparr>calls := calls st @ [NativeInsert (cs_name cs) (cs_payload cs) tx reply]\<rparr>
      in (case reply of
            Inl err \<Rightarrow> (Some (DriverError err), st1)
          | Inr res \<Rightarrow>
              let hasPrimaryKey = isDefined (primaryKey (entities st1 r))
              in (case metadata p (cs_name cs) of
                    None \<Rightarrow>
                      if (case row res of None \<Rightarrow> False | Some rw \<Rightarrow> rw \<noteq> []) \<or> \<not> hasPrimaryKey
                      then (Some TypeError, st1)
                      else (Some TypeError, populated r st1)
                  | Some meta \<Rightarrow>
                      let st2 = mapReturnedValues p r res meta st1
                      in (case (if \<not> hasPrimaryKey then mapPrimaryKey p meta (insertId res) c st2 else (None, st2)) of
                            (Some err, st3) \<Rightarrow> (Some err, st3)
                          | (None, st3) \<Rightarrow>
                              let st4 = markAsPopulated c meta st3;
                                  st5 = st4\<lparr>entities := (entities st4)(r := (entities st4 r)\<lparr>e_initialized := True\<rparr>)\<rparr>
                              in (case processOptimisticLock p meta c res tx st5 of
                                    (Some err, st6) \<Rightarrow> (Some err, st6)
                                  | (None, st6) \<Rightarrow>
                                      (None, st6\<lparr>changeSets := (changeSets st6)(c := (changeSets st6 c)\<lparr>cs_persisted := True\<rparr>)\<rparr>))))))"

definition persistManagedEntity :: "persister \<Rightarrow> ctx \<Rightarrow> nat \<Rightarrow> state \<Rightarrow> error option \<times> state" where
  "persistManagedEntity p tx c st =
     (case metadata p (cs_name (changeSets st c)) of
        None \<Rightarrow> (Some TypeError, st)
      | Some meta \<Rightarrow>
          (case updateEntity p meta c tx st of
             (Inl err, st1) \<Rightarrow> (Some (DriverError err), st1)
           | (Inr res, st1) \<Rightarrow>
               let st2 = mapReturnedValues p (cs_entity (changeSets st1 c)) res meta st1
               in (case processOptimisticLock p meta c res tx st2 of
                     (Some err, st3) \<Rightarrow> (Some err, st3)
                   | (None, st3) \<Rightarrow>
                       (None, st3\<lparr>changeSets := (changeSets st3)(c := (changeSets st3 c)\<lparr>cs_persisted := True\<rparr>)\<rparr>))))"

definition executeInserts :: "persister \<Rightarrow> nat list \<Rightarrow> ctx \<Rightarrow> state \<Rightarrow> error option \<times> state" where
  "executeInserts p css tx st =
     (case forEach (processProperties p) css st of
        (Some err, st1) \<Rightarrow> (Some err, st1)
      | (None, st1) \<Rightarrow> forEach (persistNewEntity p tx) css st1)"

definition executeUpdates :: "persister \<Rightarrow> nat list \<Rightarrow> ctx \<Rightarrow> state \<Rightarrow> error option \<times> state" where
  "executeUpdates p css tx st =
     (case forEach (processProperties p) css st of
        (Some err, st1) \<Rightarrow> (Some err, st1)
      | (None, st1) \<Rightarrow> forEach (persistManagedEntity p tx) css st1)"

text \<open>\<open>changeSets[0].entity\<close> on an empty array dereferences \<open>undefined\<close>.\<close>

definition executeDeletes :: "persister \<Rightarrow> nat list \<Rightarrow> ctx \<Rightarrow> state \<Rightarrow> error option \<times> state" where
  "executeDeletes p css tx st =
     (case css of
        [] \<Rightarrow> (Some TypeError, st)
      | c0 # _ \<Rightarrow>
          let meta = e_meta (entities st (cs_entity (changeSets st c0)));
              pk = getPrimaryKeyHash p (m_primaryKeys meta);
              pks = (if m_compositePK meta
                     then map (\<lambda>c. VList (primaryKeys (entities st (cs_entity (changeSets st c))))) css
                     else map (\<lambda>c. primaryKey (entities st (cs_entity (changeSets st c)))) css);
              cond = VObj [(pk, VObj [(''$in'', VList pks)])];
              reply = nativeDelete (driver p) (calls st) (cs_name (changeSets st c0)) cond tx;
              st1 = st\<lparr>calls := calls st @ [NativeDelete (cs_name (changeSets st c0)) cond tx reply]\<rparr>
          in (case reply of
                Inl err \<Rightarrow> (Some (DriverError err), st1)
              | Inr _ \<Rightarrow> (None, st1)))"

text \<open>The entity a change set refers to.\<close>

abbreviation entityOf :: "state \<Rightarrow> nat \<Rightarrow> entity" where
  "entityOf st c \<equiv> entities st (cs_entity (changeSets st c))"

section \<open>Auxiliary notions\<close>

text \<open>
  What a run of the persister on the change sets \<open>C\<close> may change: names, types and entity
  references of change sets, and descriptors and identity tokens of entities, never;
  flags are only ever set; the driver log only grows; change sets outside \<open>C\<close> and
  the fields of entities that no change set of \<open>C\<close> refers to stay as they are.
\<close>

definition touches :: "nat set \<Rightarrow> state \<Rightarrow> state \<Rightarrow> bool" where
  "touches C st st' \<longleftrightarrow>
     (\<forall>c. cs_name (changeSets st' c) = cs_name (changeSets st c)
        \<and> cs_type (changeSets st' c) = cs_type (changeSets st c)
        \<and> cs_entity (changeSets st' c) = cs_entity (changeSets st c)
        \<and> (cs_persisted (changeSets st c) \<longrightarrow> cs_persisted (changeSets st' c)))
   \<and> (\<forall>r. e_meta (entities st' r) = e_meta (entities st r)
        \<and> e_uuid (entities st' r) = e_uuid (entities st r)
        \<and> (e_populated (entities st r) \<longrightarrow> e_populated (entities st' r))
        \<and> (e_initialized (entities st r) \<longrightarrow> e_initialized (entities st' r)))
   \<and> (\<exists>evs. calls st' = calls st @ evs)
   \<and> (\<forall>c. c \<notin> C \<longrightarrow> changeSets st' c = changeSets st c)
   \<and> (\<forall>r. r \<notin> (\<lambda>c. cs_entity (changeSets st c)) ` C \<longrightarrow> e_props (entities st' r) = e_props (entities st r))"

text \<open>
  The names under which an entity's primary key is read and written: the first key name
  (the property that the primary-key setter writes and a single-column key is read
  from) and every key name (the properties a composite key is read from).
\<close>

definition keyNames :: "entity_metadata \<Rightarrow> string list" where
  "keyNames meta = firstKey (m_primaryKeys meta) # m_primaryKeys meta"

text \<open>
  Whether property resolution applies a compute rule of the property to the change set:
  a compute-on-create rule to a CREATE, a compute-on-update rule to an UPDATE.
\<close>

definition computes :: "change_set \<Rightarrow> entity_property \<Rightarrow> bool" where
  "computes cs q \<longleftrightarrow> (p_onCreate q \<noteq> None \<and> cs_type cs = CREATE) \<or> (p_onUpdate q \<noteq> None \<and> cs_type cs = UPDATE)"

text \<open>
  The part of \<open>persistNewEntity\<close> between the insert and the follow-up lookup that writes
  the entity's fields: returned values are reconciled and, where the key was not set
  when the insert was made, the primary key is assigned from the insert id.
\<close>

definition keyAssigned :: "persister \<Rightarrow> entity_metadata \<Rightarrow> query_result \<Rightarrow> nat \<Rightarrow> state \<Rightarrow> state" where
  "keyAssigned p meta res c st =
     (let r = cs_entity (changeSets st c);
          st2 = mapReturnedValues p r res meta st
      in if \<not> isDefined (primaryKey (entities st r)) then snd (mapPrimaryKey p meta (insertId res) c st2) else st2)"

section \<open>An example world\<close>

text \<open>
  The spec's example type \<open>User {id: auto, version: int}\<close> with one more column, and a
  type \<open>Audit\<close> whose key carries a compute-on-create rule and whose version carries a
  compute-on-update rule; drivers; and states built from lists of change sets and
  entities.
\<close>

definition userMeta :: entity_metadata where
  "userMeta = \<lparr>m_name = ''User'', m_primaryKeys = [''id''], m_compositePK = False,
     m_versionProperty = Some ''version'',
     m_properties =
       [\<lparr>p_name = ''id'', p_fieldNames = Some [''id''], p_primary = True, p_onCreate = None, p_onUpdate = None, p_customType = None\<rparr>,
        \<lparr>p_name = ''version'', p_fieldNames = Some [''version''], p_primary = False, p_onCreate = None, p_onUpdate = None, p_customType = None\<rparr>,
        \<lparr>p_name = ''count'', p_fieldNames = Some [''count''], p_primary = False, p_onCreate = None, p_onUpdate = None, p_customType = None\<rparr>]\<rparr>"

definition auditMeta :: entity_metadata where
  "auditMeta = \<lparr>m_name = ''Audit'', m_primaryKeys = [''id''], m_compositePK = False,
     m_versionProperty = Some ''version'',
     m_properties =
       [\<lparr>p_name = ''id'', p_fieldNames = Some [''id''], p_primary = True, p_onCreate = Some (\<lambda>_. VNum 2), p_onUpdate = None, p_customType = None\<rparr>,
        \<lparr>p_name = ''version'', p_fieldNames = Some [''version''], p_primary = False, p_onCreate = None, p_onUpdate = Some (\<lambda>_. VNum 5), p_customType = None\<rparr>]\<rparr>"

definition mkEntity :: "entity_metadata \<Rightarrow> string \<Rightarrow> dict \<Rightarrow> entity" where
  "mkEntity meta u props = \<lparr>e_meta = meta, e_uuid = u, e_props = props, e_populated = False, e_initialized = False\<rparr>"

definition mkChangeSet :: "string \<Rightarrow> ChangeSetType \<Rightarrow> dict \<Rightarrow> nat \<Rightarrow> change_set" where
  "mkChangeSet n t pl r = \<lparr>cs_name = n, cs_type = t, cs_payload = pl, cs_entity = r, cs_persisted = False\<rparr>"

definition okInsert :: query_result where
  "okInsert = \<lparr>affectedRows = VNum 1, insertId = VNum 42, row = None\<rparr>"

definition okUpdate :: query_result where
  "okUpdate = \<lparr>affectedRows = VNum 1, insertId = VUndefined, row = None\<rparr>"

text \<open>
  A driver with the given insert and update primitives; its delete reports two rows and
  its lookup finds version 9.
\<close>

definition mkDriver ::
  "(event list \<Rightarrow> string \<Rightarrow> dict \<Rightarrow> ctx \<Rightarrow> string + query_result) \<Rightarrow>
   (event list \<Rightarrow> string \<Rightarrow> val \<Rightarrow> dict \<Rightarrow> ctx \<Rightarrow> string + query_result) \<Rightarrow> driver" where
  "mkDriver ins upd = \<lparr>nativeInsert = ins, nativeUpdate = upd,
     nativeDelete = (\<lambda>h n cond tx. Inr \<lparr>affectedRows = VNum 2, insertId = VUndefined, row = None\<rparr>),
     findOne = (\<lambda>h n pk fs tx. Inr (Some [(''version'', VNum 9)]))\<rparr>"

definition okDriver :: driver where
  "okDriver = mkDriver (\<lambda>h n pl tx. Inr okInsert) (\<lambda>h n cond pl tx. Inr okUpdate)"

text \<open>Accepts the first call of a batch and fails every call after it.\<close>

definition flakyDriver :: driver where
  "flakyDriver = mkDriver (\<lambda>h n pl tx. if h = [] then Inr okInsert else Inl ''connection lost'')
                          (\<lambda>h n cond pl tx. if h = [] then Inr okUpdate else Inl ''connection lost'')"

text \<open>Fails every write.\<close>

definition downDriver :: driver where
  "downDriver = mkDriver (\<lambda>h n pl tx. Inl ''connection lost'') (\<lambda>h n cond pl tx. Inl ''connection lost'')"

text \<open>Updates the first row of a batch and reports zero affected rows for every later one.\<close>

definition staleDriver :: driver where
  "staleDriver = mkDriver (\<lambda>h n pl tx. Inr okInsert)
                          (\<lambda>h n cond pl tx. if h = [] then Inr okUpdate else Inr (okUpdate\<lparr>affectedRows := VNum 0\<rparr>))"

text \<open>Reports zero affected rows for every update.\<close>

definition lostDriver :: driver where
  "lostDriver = mkDriver (\<lambda>h n pl tx. Inr okInsert) (\<lambda>h n cond pl tx. Inr (okUpdate\<lparr>affectedRows := VNum 0\<rparr>))"

text \<open>An insert that returns the row \<open>{id: 5}\<close> next to the insert id 7.\<close>

definition returningDriver :: driver where
  "returningDriver = mkDriver (\<lambda>h n pl tx. Inr \<lparr>affectedRows = VNum 1, insertId = VNum 7, row = Some [(''id'', VNum 5)]\<rparr>)
                              (\<lambda>h n cond pl tx. Inr okUpdate)"

text \<open>An insert that reports no generated id.\<close>

definition keylessDriver :: driver where
  "keylessDriver = mkDriver (\<lambda>h n pl tx. Inr \<lparr>affectedRows = VNum 1, insertId = VUndefined, row = None\<rparr>)
                            (\<lambda>h n cond pl tx. Inr okUpdate)"

definition mkPersister :: "driver \<Rightarrow> persister" where
  "mkPersister d = \<lparr>driver = d,
     identifierMap = (\<lambda>u. if u = ''u0'' then Some 0 else if u = ''u1'' then Some 1 else None),
     metadata = (\<lambda>n. if n = ''User'' then Some userMeta else if n = ''Audit'' then Some auditMeta else None),
     hydrateValue = (\<lambda>prop v. v), getPrimaryKeyHash = firstKey\<rparr>"

definition mkState :: "change_set list \<Rightarrow> entity list \<Rightarrow> state" where
  "mkState css es = \<lparr>changeSets = (\<lambda>i. if i < length css then css ! i else mkChangeSet ''User'' DELETE [] 0),
      entities = (\<lambda>i. if i < length es then es ! i else mkEntity userMeta [] []),
      collections = (\<lambda>_. False), identifiers = (\<lambda>_. VUndefined), calls = []\<rparr>"

text \<open>The spec's delete example: \<open>[User{id:1}, User{id:2}]\<close>.\<close>

definition delState :: state where
  "delState = mkState [mkChangeSet ''User'' DELETE [] 0, mkChangeSet ''User'' DELETE [] 1]
                      [mkEntity userMeta ''u0'' [(''id'', VNum 1)], mkEntity userMeta ''u1'' [(''id'', VNum 2)]]"

text \<open>One pending update of \<open>User{id:42}\<close> holding the given version.\<close>

definition updState :: "val \<Rightarrow> state" where
  "updState v = mkState [mkChangeSet ''User'' UPDATE [(''count'', VNum 8)] 0]
                        [mkEntity userMeta ''u0'' [(''id'', VNum 42), (''version'', v), (''count'', VNum 8)]]"

text \<open>Two pending updates, of \<open>User{id:42, version:1}\<close> and \<open>User{id:43, version:1}\<close>.\<close>

definition updState2 :: state where
  "updState2 = mkState [mkChangeSet ''User'' UPDATE [(''count'', VNum 8)] 0, mkChangeSet ''User'' UPDATE [(''count'', VNum 9)] 1]
                       [mkEntity userMeta ''u0'' [(''id'', VNum 42), (''version'', VNum 1), (''count'', VNum 8)],
                        mkEntity userMeta ''u1'' [(''id'', VNum 43), (''version'', VNum 1), (''count'', VNum 9)]]"

text \<open>Two pending updates of \<open>Audit\<close> entities holding version 1.\<close>

definition auditUpdState :: state where
  "auditUpdState = mkState [mkChangeSet ''Audit'' UPDATE [] 0, mkChangeSet ''Audit'' UPDATE [] 1]
                           [mkEntity auditMeta ''u0'' [(''id'', VNum 10), (''version'', VNum 1)],
                            mkEntity auditMeta ''u1'' [(''id'', VNum 11), (''version'', VNum 1)]]"

text \<open>One pending insert of a \<open>User\<close> with the given fields, its payload the same fields.\<close>

definition insState :: "dict \<Rightarrow> state" where
  "insState props = mkState [mkChangeSet ''User'' CREATE props 0] [mkEntity userMeta ''u0'' props]"

text \<open>Two pending inserts of \<open>User\<close> entities without a key.\<close>

definition insState2 :: state where
  "insState2 = mkState [mkChangeSet ''User'' CREATE [(''count'', VNum 1)] 0, mkChangeSet ''User'' CREATE [(''count'', VNum 2)] 1]
                       [mkEntity userMeta ''u0'' [(''count'', VNum 1)], mkEntity userMeta ''u1'' [(''count'', VNum 2)]]"

text \<open>One pending insert of an \<open>Audit\<close> entity whose key the caller has set to 1.\<close>

definition auditInsState :: state where
  "auditInsState = mkState [mkChangeSet ''Audit'' CREATE [(''id'', VNum 1)] 0] [mkEntity auditMeta ''u0'' [(''id'', VNum 1)]]"

text \<open>The two pending updates after the first one has been persisted through the given driver.\<close>

definition afterFirstUpdate :: "driver \<Rightarrow> state" where
  "afterFirstUpdate d = snd (persistManagedEntity (mkPersister d) None 0 updState2)"

section \<open>Properties\<close>

lemmas example_defs = userMeta_def auditMeta_def mkEntity_def mkChangeSet_def okInsert_def okUpdate_def
  mkDriver_def okDriver_def flakyDriver_def downDriver_def staleDriver_def lostDriver_def
  returningDriver_def keylessDriver_def mkPersister_def mkState_def
  delState_def updState_def updState2_def auditUpdState_def insState_def insState2_def auditInsState_def

lemmas accessor_defs = primaryKey_def primaryKeys_def firstKey_def getProp_def setProp_def
  getPrimaryKeyCond_def versionOf_def setEntityProp_def

text \<open>Projections of the example world, for evaluating a run step by step.\<close>

lemma example_simps:
  "m_name userMeta = ''User''" "m_primaryKeys userMeta = [''id'']" "m_compositePK userMeta = False"
  "m_versionProperty userMeta = Some ''version''"
  "m_properties userMeta =
       [\<lparr>p_name = ''id'', p_fieldNames = Some [''id''], p_primary = True, p_onCreate = None, p_onUpdate = None, p_customType = None\<rparr>,
        \<lparr>p_name = ''version'', p_fieldNames = Some [''version''], p_primary = False, p_onCreate = None, p_onUpdate = None, p_customType = None\<rparr>,
        \<lparr>p_name = ''count'', p_fieldNames = Some [''count''], p_primary = False, p_onCreate = None, p_onUpdate = None, p_customType = None\<rparr>]"
  "m_name auditMeta = ''Audit''" "m_primaryKeys auditMeta = [''id'']" "m_compositePK auditMeta = False"
  "m_versionProperty auditMeta = Some ''version''"
  "m_properties auditMeta =
       [\<lparr>p_name = ''id'', p_fieldNames = Some [''id''], p_primary = True, p_onCreate = Some (\<lambda>_. VNum 2), p_onUpdate = None, p_customType = None\<rparr>,
        \<lparr>p_name = ''version'', p_fieldNames = Some [''version''], p_primary = False, p_onCreate = None, p_onUpdate = Some (\<lambda>_. VNum 5), p_customType = None\<rparr>]"
  "e_meta (mkEntity meta u props) = meta" "e_uuid (mkEntity meta u props) = u" "e_props (mkEntity meta u props) = props"
  "e_populated (mkEntity meta u props) = False" "e_initialized (mkEntity meta u props) = False"
  "cs_name (mkChangeSet n t pl r) = n" "cs_type (mkChangeSet n t pl r) = t" "cs_payload (mkChangeSet n t pl r) = pl"
  "cs_entity (mkChangeSet n t pl r) = r" "cs_persisted (mkChangeSet n t pl r) = False"
  "nativeInsert (mkDriver ins upd) = ins" "nativeUpdate (mkDriver ins upd) = upd"
  "nativeDelete (mkDriver ins upd) = (\<lambda>h n cond tx. Inr \<lparr>affectedRows = VNum 2, insertId = VUndefined, row = None\<rparr>)"
  "findOne (mkDriver ins upd) = (\<lambda>h n pk fs tx. Inr (Some [(''version'', VNum 9)]))"
  "driver (mkPersister d) = d"
  "identifierMap (mkPersister d) = (\<lambda>u. if u = ''u0'' then Some 0 else if u = ''u1'' then Some 1 else None)"
  "metadata (mkPersister d) = (\<lambda>n. if n = ''User'' then Some userMeta else if n = ''Audit'' then Some auditMeta else None)"
  "hydrateValue (mkPersister d) = (\<lambda>prop v. v)" "getPrimaryKeyHash (mkPersister d) = firstKey"
  "changeSets (mkState css es) = (\<lambda>i. if i < length css then css ! i else mkChangeSet ''User'' DELETE [] 0)"
  "entities (mkState css es) = (\<lambda>i. if i < length es then es ! i else mkEntity userMeta [] [])"
  "collections (mkState css es) = (\<lambda>_. False)" "identifiers (mkState css es) = (\<lambda>_. VUndefined)" "calls (mkState css es) = []"
  "affectedRows okInsert = VNum 1" "insertId okInsert = VNum 42" "row okInsert = None"
  "affectedRows okUpdate = VNum 1" "insertId okUpdate = VUndefined" "row okUpdate = None"
  by (simp_all add: userMeta_def auditMeta_def mkEntity_def mkChangeSet_def mkDriver_def mkPersister_def mkState_def
        okInsert_def okUpdate_def)

lemmas example_states = okDriver_def flakyDriver_def downDriver_def staleDriver_def lostDriver_def
  returningDriver_def keylessDriver_def delState_def updState_def updState2_def auditUpdState_def insState_def
  insState2_def auditInsState_def

lemmas eval_defs = executeInserts_def executeUpdates_def processProperties_def processProperty_def
  persistNewEntity_def persistManagedEntity_def updateEntity_def mapPrimaryKey_def lookupProperty_def convertInsertId_def
  mapReturnedValues_def returnedData_def collectReturned_def hydrate_def hydrateProperty_def
  markAsPopulated_def markProp_def processOptimisticLock_def
  primaryKey_def primaryKeys_def firstKey_def getProp_def setProp_def getPrimaryKeyCond_def versionOf_def

subsection \<open>Dictionaries and the returned-row reduction\<close>

lemma getProp_setProp: "getProp (setProp d k v) k' = (if k' = k then v else getProp d k')"
  by (simp add: getProp_def setProp_def update_conv')

lemma setProp_getProp_same: "isDefined (getProp d k) \<Longrightarrow> setProp d k (getProp d k) = d"
  by (auto simp add: getProp_def setProp_def update_triv split: option.splits)

lemma collected_only_undefined:
  "map_of (foldl (collectReturned rw props) data ps) k = Some v \<Longrightarrow>
     map_of data k = Some v \<or> \<not> isDefined (getProp props k)"
proof (induction ps arbitrary: data)
  case Nil
  then show ?case by simp
next
  case (Cons q ps)
  from Cons.IH [OF Cons.prems [simplified]]
  show ?case
    by (auto simp add: collectReturned_def setProp_def update_conv' split: option.splits if_splits)
qed

lemma returnedData_only_undefined:
  "map_of (returnedData rw props ps) k = Some v \<Longrightarrow> \<not> isDefined (getProp props k)"
  using collected_only_undefined [of rw props "[]" ps k v] by (simp add: returnedData_def)

subsection \<open>What each operation may change\<close>

lemma touches_refl: "touches C st st"
  by (simp add: touches_def)

lemma touches_trans:
  assumes a: "touches C st st1" and b: "touches C st1 st2"
  shows "touches C st st2"
proof -
  have ent: "(\<lambda>c. cs_entity (changeSets st1 c)) = (\<lambda>c. cs_entity (changeSets st c))"
    using a by (simp add: touches_def)
  obtain evs1 evs2 where "calls st1 = calls st @ evs1" "calls st2 = calls st1 @ evs2"
    using a b unfolding touches_def by blast
  then have log: "\<exists>evs. calls st2 = calls st @ evs"
    by simp
  have props: "e_props (entities st2 r) = e_props (entities st r)"
    if "r \<notin> (\<lambda>c. cs_entity (changeSets st c)) ` C" for r
  proof -
    have "e_props (entities st2 r) = e_props (entities st1 r)"
      using b that unfolding touches_def ent by blast
    also have "\<dots> = e_props (entities st r)"
      using a that unfolding touches_def by blast
    finally show ?thesis .
  qed
  have sets: "changeSets st2 c = changeSets st c" if "c \<notin> C" for c
    using a b that unfolding touches_def by simp
  have shape: "cs_name (changeSets st2 c) = cs_name (changeSets st c)
        \<and> cs_type (changeSets st2 c) = cs_type (changeSets st c)
        \<and> cs_entity (changeSets st2 c) = cs_entity (changeSets st c)
        \<and> (cs_persisted (changeSets st c) \<longrightarrow> cs_persisted (changeSets st2 c))" for c
    using a b unfolding touches_def by simp
  have ents: "e_meta (entities st2 r) = e_meta (entities st r)
        \<and> e_uuid (entities st2 r) = e_uuid (entities st r)
        \<and> (e_populated (entities st r) \<longrightarrow> e_populated (entities st2 r))
        \<and> (e_initialized (entities st r) \<longrightarrow> e_initialized (entities st2 r))" for r
    using a b unfolding touches_def by simp
  show ?thesis
    unfolding touches_def using log props sets shape ents by blast
qed

lemma touches_mono:
  assumes "touches C st st'" "C \<subseteq> D"
  shows "touches D st st'"
proof -
  have "r \<notin> (\<lambda>c. cs_entity (changeSets st c)) ` C" if "r \<notin> (\<lambda>c. cs_entity (changeSets st c)) ` D" for r
    using that assms(2) by blast
  moreover have "c \<notin> C" if "c \<notin> D" for c
    using that assms(2) by blast
  ultimately show ?thesis
    using assms(1) unfolding touches_def by blast
qed

lemma state_simps:
  "changeSets (setEntityProp r k v st) = changeSets st"
  "collections (setEntityProp r k v st) = collections st"
  "identifiers (setEntityProp r k v st) = identifiers st"
  "calls (setEntityProp r k v st) = calls st"
  "entities (setEntityProp r k v st) r' =
     (if r' = r then (entities st r)\<lparr>e_props := setProp (e_props (entities st r)) k v\<rparr> else entities st r')"
  "entities (setPayload c k v st) = entities st"
  "collections (setPayload c k v st) = collections st"
  "identifiers (setPayload c k v st) = identifiers st"
  "calls (setPayload c k v st) = calls st"
  "changeSets (setPayload c k v st) c' =
     (if c' = c then (changeSets st c)\<lparr>cs_payload := setProp (cs_payload (changeSets st c)) k v\<rparr> else changeSets st c')"
  "changeSets (populated r st) = changeSets st"
  "collections (populated r st) = collections st"
  "identifiers (populated r st) = identifiers st"
  "calls (populated r st) = calls st"
  "entities (populated r st) r' = (if r' = r then (entities st r)\<lparr>e_populated := True\<rparr> else entities st r')"
  "setPrimaryKey r v st = setEntityProp r (firstKey (m_primaryKeys (e_meta (entities st r)))) v st"
  by (simp_all add: setEntityProp_def setPayload_def populated_def setPrimaryKey_def)

lemma touches_setEntityProp: "cs_entity (changeSets st c) = r \<Longrightarrow> c \<in> C \<Longrightarrow> touches C st (setEntityProp r k v st)"
  by (auto simp add: touches_def state_simps)

lemma touches_setPayload: "c \<in> C \<Longrightarrow> touches C st (setPayload c k v st)"
  by (auto simp add: touches_def state_simps)

lemma touches_populated: "touches C st (populated r st)"
  by (auto simp add: touches_def state_simps)

lemma touches_log: "touches C st (st\<lparr>calls := calls st @ evs\<rparr>)"
  by (simp add: touches_def)

lemma touches_identifiers: "touches C st (st\<lparr>identifiers := f\<rparr>)"
  by (simp add: touches_def)

lemma touches_collections: "touches C st (st\<lparr>collections := f\<rparr>)"
  by (simp add: touches_def)

lemma touches_initialized:
  "touches C st (st\<lparr>entities := (entities st)(r := (entities st r)\<lparr>e_initialized := True\<rparr>)\<rparr>)"
  by (simp add: touches_def)

lemma touches_persisted:
  "c \<in> C \<Longrightarrow> touches C st (st\<lparr>changeSets := (changeSets st)(c := (changeSets st c)\<lparr>cs_persisted := True\<rparr>)\<rparr>)"
  by (simp add: touches_def)

lemma touches_foldl:
  assumes "\<And>s x. touches C s (f s x)"
  shows "touches C st (foldl f st xs)"
proof (induction xs arbitrary: st)
  case Nil
  show ?case by (simp add: touches_refl)
next
  case (Cons x xs)
  show ?case
    using touches_trans [OF assms [of st x] Cons.IH [of "f st x"]] by simp
qed

lemma touches_forEach:
  assumes "\<And>s x. x \<in> set xs \<Longrightarrow> touches C s (snd (f x s))"
  shows "touches C st (snd (forEach f xs st))"
  using assms
proof (induction xs arbitrary: st)
  case Nil
  show ?case by (simp add: touches_refl)
next
  case (Cons x xs)
  have first: "touches C st (snd (f x st))"
    using Cons.prems by simp
  show ?case
  proof (cases "f x st")
    case (Pair e st1)
    show ?thesis
    proof (cases e)
      case None
      have "touches C st1 (snd (forEach f xs st1))"
        using Cons.IH Cons.prems by simp
      then show ?thesis
        using first Pair None by (simp add: touches_trans [of C st st1])
    next
      case (Some err)
      then show ?thesis
        using first Pair by simp
    qed
  qed
qed

lemma touches_mapPrimaryKey: "c \<in> C \<Longrightarrow> touches C st (snd (mapPrimaryKey p meta v c st))"
  unfolding mapPrimaryKey_def Let_def
  by (auto split: option.splits simp add: state_simps
           intro!: touches_refl touches_setEntityProp touches_trans [OF touches_setEntityProp touches_identifiers])

lemma touches_markAsPopulated: "touches C st (markAsPopulated c meta st)"
proof -
  have step: "touches C s (markProp r s q)" for r s q
    by (auto simp add: markProp_def touches_refl touches_populated touches_collections split: val.splits)
  show ?thesis
    unfolding markAsPopulated_def Let_def
    by (rule touches_trans [OF touches_populated touches_foldl]) (rule step)
qed

lemma touches_hydrate:
  assumes "cs_entity (changeSets st c) = r" "c \<in> C"
  shows "touches C st (hydrate p r meta data st)"
proof -
  have inv: "touches C st (foldl (hydrateProperty p r data) st ps)" for ps
  proof (induction ps rule: rev_induct)
    case Nil
    show ?case by (simp add: touches_refl)
  next
    case (snoc q ps)
    let ?s = "foldl (hydrateProperty p r data) st ps"
    have "cs_entity (changeSets ?s c) = r"
      using snoc assms by (simp add: touches_def)
    then have "touches C ?s (hydrateProperty p r data ?s q)"
      using assms(2) by (auto simp add: hydrateProperty_def touches_refl touches_setEntityProp split: option.splits)
    then show ?case
      using touches_trans [OF snoc] by simp
  qed
  show ?thesis
    unfolding hydrate_def by (rule inv)
qed

lemma touches_mapReturnedValues:
  "cs_entity (changeSets st c) = r \<Longrightarrow> c \<in> C \<Longrightarrow> touches C st (mapReturnedValues p r res meta st)"
  by (auto simp add: mapReturnedValues_def touches_refl touches_hydrate split: option.splits)

lemma touches_updateEntity: "touches C st (snd (updateEntity p meta c tx st))"
  by (simp add: updateEntity_def Let_def touches_log)

lemma touches_processOptimisticLock: "c \<in> C \<Longrightarrow> touches C st (snd (processOptimisticLock p meta c res tx st))"
  unfolding processOptimisticLock_def Let_def
  by (auto split: option.splits sum.splits simp add: state_simps
           intro!: touches_refl touches_log touches_trans [OF touches_log touches_setEntityProp])

lemma touches_processProperty: "c \<in> C \<Longrightarrow> touches C st (snd (processProperty p c q st))"
proof -
  assume c: "c \<in> C"
  define st1 where "st1 = (case getProp (cs_payload (changeSets st c)) (p_name q) of
                   VIdentifier i \<Rightarrow> setPayload c (p_name q) (identifiers st i) st
                 | _ \<Rightarrow> st)"
  define r where "r = cs_entity (changeSets st1 c)"
  define created where "created =
            (case p_onCreate q of
               None \<Rightarrow> (None, st1)
             | Some f \<Rightarrow>
                 if cs_type (changeSets st1 c) = CREATE then
                   let v = f (e_props (entities st1 r));
                       st2 = setEntityProp r (p_name q) v (setPayload c (p_name q) v st1)
                   in if p_primary q
                      then mapPrimaryKey p (e_meta (entities st2 r)) (getProp (e_props (entities st2 r)) (p_name q)) c st2
                      else (None, st2)
                 else (None, st1))"
  have t1: "touches C st st1"
    using c by (auto simp add: st1_def touches_refl touches_setPayload split: val.splits)
  have hook: "touches C s (setEntityProp (cs_entity (changeSets s c)) k v (setPayload c k v s))" for s k v
    using c
    by (intro touches_trans [OF touches_setPayload touches_setEntityProp]) (simp_all add: state_simps)
  have t2: "touches C st1 (snd created)"
    using c unfolding created_def Let_def r_def
    by (auto split: option.splits intro!: touches_refl hook touches_trans [OF hook touches_mapPrimaryKey])
  have r3: "cs_entity (changeSets (snd created) c) = r"
    using t2 by (simp add: touches_def r_def)
  have run: "processProperty p c q st =
      (case created of
            (Some err, st3) \<Rightarrow> (Some err, st3)
          | (None, st3) \<Rightarrow>
              (case p_onUpdate q of
                 None \<Rightarrow> (None, st3)
               | Some g \<Rightarrow>
                   if cs_type (changeSets st3 c) = UPDATE then
                     let v = g (e_props (entities st3 r))
                     in (None, setEntityProp r (p_name q) v (setPayload c (p_name q) v st3))
                   else (None, st3)))"
    unfolding processProperty_def created_def r_def st1_def Let_def ..
  have t3: "touches C (snd created) (snd (processProperty p c q st))"
    unfolding run Let_def r3 [symmetric]
    by (cases created) (auto split: option.splits intro!: touches_refl hook)
  show ?thesis
    using t1 t2 t3 by (blast intro: touches_trans)
qed

lemma touches_processProperties: "c \<in> C \<Longrightarrow> touches C st (snd (processProperties p c st))"
  by (auto simp add: processProperties_def touches_refl touches_forEach touches_processProperty split: option.splits)

lemma touchesD:
  "mapPrimaryKey p meta v c st = (e, st') \<Longrightarrow> c \<in> C \<Longrightarrow> touches C st st'"
  "processOptimisticLock p meta c res tx st = (e, st') \<Longrightarrow> c \<in> C \<Longrightarrow> touches C st st'"
  "updateEntity p meta c tx st = (reply, st') \<Longrightarrow> touches C st st'"
  using touches_mapPrimaryKey [of c C st p meta v] touches_processOptimisticLock [of c C st p meta res tx]
        touches_updateEntity [of C st p meta c tx]
  by simp_all

lemma touches_persistManagedEntity: 
  assumes c: "c \<in> C"
  shows "touches C st (snd (persistManagedEntity p tx c st))"
proof (cases "metadata p (cs_name (changeSets st c))")
  case None
  then show ?thesis by (simp add: persistManagedEntity_def touches_refl)
next
  case (Some meta)
  obtain reply st1 where upd: "updateEntity p meta c tx st = (reply, st1)"
    by (cases "updateEntity p meta c tx st")
  have t1: "touches C st st1"
    using upd by (rule touchesD)
  show ?thesis
  proof (cases reply)
    case (Inl err)
    then show ?thesis using Some upd t1 by (simp add: persistManagedEntity_def)
  next
    case (Inr res)
    define st2 where "st2 = mapReturnedValues p (cs_entity (changeSets st1 c)) res meta st1"
    have t2: "touches C st1 st2"
      unfolding st2_def using c by (intro touches_mapReturnedValues) simp_all
    obtain e st3 where lock: "processOptimisticLock p meta c res tx st2 = (e, st3)"
      by (cases "processOptimisticLock p meta c res tx st2")
    have t3: "touches C st2 st3"
      using lock c by (rule touchesD)
    have t03: "touches C st st3"
      using t1 t2 t3 by (blast intro: touches_trans)
    have run: "persistManagedEntity p tx c st =
       (case e of Some err \<Rightarrow> (Some err, st3)
        | None \<Rightarrow> (None, st3\<lparr>changeSets := (changeSets st3)(c := (changeSets st3 c)\<lparr>cs_persisted := True\<rparr>)\<rparr>))"
      using Some upd Inr lock by (simp add: persistManagedEntity_def Let_def st2_def split: option.splits)
    show ?thesis
      unfolding run using t03 c
      by (auto split: option.splits intro: touches_trans [OF t03 touches_persisted])
  qed
qed

lemma touches_persistNewEntity:
  assumes c: "c \<in> C"
  shows "touches C st (snd (persistNewEntity p tx c st))"
proof -
  define cs where "cs = changeSets st c"
  define r where "r = cs_entity cs"
  show ?thesis
  proof (cases "nativeInsert (driver p) (calls st) (cs_name cs) (cs_payload cs) tx")
    case (Inl err)
    then show ?thesis
      by (simp add: persistNewEntity_def Let_def cs_def [symmetric] touches_log)
  next
    case (Inr res)
    define st1 where "st1 = st\<lparr>calls := calls st @ [NativeInsert (cs_name cs) (cs_payload cs) tx (Inr res)]\<rparr>"
    have t1: "touches C st st1"
      unfolding st1_def by (rule touches_log)
    have r1: "cs_entity (changeSets st1 c) = r"
      by (simp add: st1_def r_def cs_def)
    show ?thesis
    proof (cases "metadata p (cs_name cs)")
      case None
      then show ?thesis
        using Inr t1 touches_trans [OF t1 touches_populated]
        by (simp add: persistNewEntity_def Let_def cs_def [symmetric] st1_def [symmetric] r_def [symmetric])
    next
      case (Some meta)
      define st2 where "st2 = mapReturnedValues p r res meta st1"
      have t2: "touches C st1 st2"
        unfolding st2_def using c r1 by (intro touches_mapReturnedValues)
      obtain e3 st3 where mp: "(if \<not> isDefined (primaryKey (entities st1 r)) then mapPrimaryKey p meta (insertId res) c st2 else (None, st2)) = (e3, st3)"
        by (cases "(if \<not> isDefined (primaryKey (entities st1 r)) then mapPrimaryKey p meta (insertId res) c st2 else (None, st2))")
      have t3: "touches C st2 st3"
        using mp c by (auto split: if_splits intro: touchesD touches_refl)
      define st5 where "st5 = (let st4 = markAsPopulated c meta st3 in st4\<lparr>entities := (entities st4)(r := (entities st4 r)\<lparr>e_initialized := True\<rparr>)\<rparr>)"
      have t5: "touches C st3 st5"
        unfolding st5_def Let_def by (rule touches_trans [OF touches_markAsPopulated touches_initialized])
      obtain e6 st6 where lock: "processOptimisticLock p meta c res tx st5 = (e6, st6)"
        by (cases "processOptimisticLock p meta c res tx st5")
      have t6: "touches C st5 st6"
        using lock c by (rule touchesD)
      have t06: "touches C st st6" and t03: "touches C st st3"
        using t1 t2 t3 t5 t6 by (blast intro: touches_trans)+
      have run: "persistNewEntity p tx c st =
         (case e3 of Some err \<Rightarrow> (Some err, st3)
          | None \<Rightarrow> (case e6 of Some err \<Rightarrow> (Some err, st6)
             | None \<Rightarrow> (None, st6\<lparr>changeSets := (changeSets st6)(c := (changeSets st6 c)\<lparr>cs_persisted := True\<rparr>)\<rparr>)))"
        using Some Inr mp lock
        by (simp add: persistNewEntity_def Let_def cs_def [symmetric] st1_def [symmetric]
              r_def [symmetric] st2_def [symmetric] st5_def [symmetric, unfolded Let_def] split: option.splits)
      show ?thesis
        unfolding run using t06 t03 c
        by (auto split: option.splits intro: touches_trans [OF t06 touches_persisted])
    qed
  qed
qed

subsection \<open>Hydration of returned values\<close>

lemma hydrate_others [simp]:
  "changeSets (hydrate p r meta data st) = changeSets st"
  "collections (hydrate p r meta data st) = collections st"
  "identifiers (hydrate p r meta data st) = identifiers st"
  "calls (hydrate p r meta data st) = calls st"
proof -
  have "changeSets (foldl (hydrateProperty p r data) st ps) = changeSets st
      \<and> collections (foldl (hydrateProperty p r data) st ps) = collections st
      \<and> identifiers (foldl (hydrateProperty p r data) st ps) = identifiers st
      \<and> calls (foldl (hydrateProperty p r data) st ps) = calls st" for ps
    by (induction ps rule: rev_induct) (auto simp add: hydrateProperty_def state_simps split: option.splits)
  then show "changeSets (hydrate p r meta data st) = changeSets st"
    "collections (hydrate p r meta data st) = collections st"
    "identifiers (hydrate p r meta data st) = identifiers st"
    "calls (hydrate p r meta data st) = calls st"
    by (simp_all add: hydrate_def)
qed

lemma hydrated_keep:
  "map_of data k = None \<or> k \<notin> p_name ` set ps \<Longrightarrow>
     getProp (e_props (entities (foldl (hydrateProperty p r data) st ps) r)) k = getProp (e_props (entities st r)) k"
  by (induction ps rule: rev_induct)
     (auto simp add: hydrateProperty_def state_simps getProp_setProp split: option.splits)

lemma mapReturnedValues_keeps_defined:
  assumes "isDefined (getProp (e_props (entities st r)) k)"
  shows "getProp (e_props (entities (mapReturnedValues p r res meta st) r)) k = getProp (e_props (entities st r)) k"
proof -
  have "map_of (returnedData rw (e_props (entities st r)) ps) k = None" for rw ps
    using returnedData_only_undefined [of rw "e_props (entities st r)" ps k] assms
    by (cases "map_of (returnedData rw (e_props (entities st r)) ps) k") auto
  then show ?thesis
    by (simp add: mapReturnedValues_def hydrate_def hydrated_keep split: option.splits)
qed

lemma mapPrimaryKey_keeps_defined:
  assumes simple: "length (m_primaryKeys (e_meta (entityOf st c))) \<le> 1"
    and set: "isDefined (primaryKey (entityOf st c))"
  shows "entities (snd (mapPrimaryKey p meta v c st)) = entities st"
proof -
  let ?r = "cs_entity (changeSets st c)"
  let ?k = "firstKey (m_primaryKeys (e_meta (entities st ?r)))"
  have pk: "primaryKey (entities st ?r) = getProp (e_props (entities st ?r)) ?k"
    using simple by (simp add: primaryKey_def)
  have same: "setPrimaryKey ?r (primaryKey (entities st ?r)) st = st"
    using set unfolding pk by (simp add: setPrimaryKey_def setEntityProp_def setProp_getProp_same)
  show ?thesis
    using set by (simp add: mapPrimaryKey_def Let_def same split: option.splits)
qed

subsection \<open>Primary-key assignment after an insert\<close>

lemma hydrate_log: "hydrate p r meta data (st\<lparr>calls := x\<rparr>) = (hydrate p r meta data st)\<lparr>calls := x\<rparr>"
proof -
  have "foldl (hydrateProperty p r data) (st\<lparr>calls := x\<rparr>) ps = (foldl (hydrateProperty p r data) st ps)\<lparr>calls := x\<rparr>" for ps
    by (induction ps rule: rev_induct) (auto simp add: hydrateProperty_def setEntityProp_def split: option.splits)
  then show ?thesis by (simp add: hydrate_def)
qed

lemma mapReturnedValues_log:
  "mapReturnedValues p r res meta (st\<lparr>calls := x\<rparr>) = (mapReturnedValues p r res meta st)\<lparr>calls := x\<rparr>"
  by (simp add: mapReturnedValues_def hydrate_log split: option.splits)

lemma mapReturnedValues_others [simp]:
  "changeSets (mapReturnedValues p r res meta st) = changeSets st"
  "collections (mapReturnedValues p r res meta st) = collections st"
  "identifiers (mapReturnedValues p r res meta st) = identifiers st"
  "calls (mapReturnedValues p r res meta st) = calls st"
  by (simp_all add: mapReturnedValues_def split: option.splits)

lemma markAsPopulated_others [simp]:
  "changeSets (markAsPopulated c meta st) = changeSets st"
  "identifiers (markAsPopulated c meta st) = identifiers st"
  "calls (markAsPopulated c meta st) = calls st"
  "e_props (entities (markAsPopulated c meta st) r) = e_props (entities st r)"
proof -
  have step: "changeSets (foldl (markProp r0) s ps) = changeSets s
      \<and> identifiers (foldl (markProp r0) s ps) = identifiers s
      \<and> calls (foldl (markProp r0) s ps) = calls s
      \<and> e_props (entities (foldl (markProp r0) s ps) r) = e_props (entities s r)" for r0 s ps
    by (induction ps rule: rev_induct) (auto simp add: markProp_def state_simps split: val.splits)
  show "changeSets (markAsPopulated c meta st) = changeSets st"
    "identifiers (markAsPopulated c meta st) = identifiers st"
    "calls (markAsPopulated c meta st) = calls st"
    "e_props (entities (markAsPopulated c meta st) r) = e_props (entities st r)"
    by (simp_all add: markAsPopulated_def Let_def step state_simps)
qed


lemma processOptimisticLock_others [simp]:
  "changeSets (snd (processOptimisticLock p meta c res tx st)) = changeSets st"
  "identifiers (snd (processOptimisticLock p meta c res tx st)) = identifiers st"
  by (simp_all add: processOptimisticLock_def Let_def state_simps split: option.splits sum.splits)

lemma processOptimisticLock_keeps_other_fields:
  "versionOf meta \<noteq> Some k \<Longrightarrow>
     getProp (e_props (entities (snd (processOptimisticLock p meta c res tx st)) r)) k = getProp (e_props (entities st r)) k"
  by (simp add: processOptimisticLock_def Let_def state_simps getProp_setProp split: option.splits sum.splits)


lemma undefined_key_is_simple: "\<not> isDefined (primaryKey e) \<Longrightarrow> primaryKey e = getProp (e_props e) (firstKey (m_primaryKeys (e_meta e)))"
  by (simp add: primaryKey_def Let_def split: if_splits)



subsection \<open>Batches\<close>

lemma forEach_append:
  "forEach f (xs @ ys) st =
     (case forEach f xs st of (Some e, s) \<Rightarrow> (Some e, s) | (None, s) \<Rightarrow> forEach f ys s)"
  by (induction xs arbitrary: st) (auto split: prod.splits option.splits)

lemma forEach_success_split:
  assumes "forEach f (pre @ x # post) st = (None, st')"
  obtains s1 s2 where "forEach f pre st = (None, s1)" "f x s1 = (None, s2)" "forEach f post s2 = (None, st')"
  using assms by (auto simp add: forEach_append split: prod.splits option.splits)

lemma forEach_stops:
  "forEach f pre st = (None, s1) \<Longrightarrow> f x s1 = (Some e, s2) \<Longrightarrow> forEach f (pre @ x # post) st = (Some e, s2)"
  by (simp add: forEach_append)

lemma forEach_invariant:
  assumes "I st" and "\<And>x s. x \<in> set xs \<Longrightarrow> I s \<Longrightarrow> I (snd (f x s))"
  shows "I (snd (forEach f xs st))"
  using assms
proof (induction xs arbitrary: st)
  case Nil
  then show ?case by simp
next
  case (Cons x xs)
  have first: "I (snd (f x st))"
    using Cons.prems by simp
  show ?case
  proof (cases "f x st")
    case (Pair e s1)
    show ?thesis
    proof (cases e)
      case None
      have "I (snd (forEach f xs s1))"
        using Cons.IH [of s1] Cons.prems(2) first Pair by simp
      then show ?thesis using Pair None by simp
    next
      case (Some err)
      then show ?thesis using first Pair by simp
    qed
  qed
qed

lemma touches_batch:
  "touches (set xs) st (snd (forEach (persistNewEntity p tx) xs st))"
  "touches (set xs) st (snd (forEach (persistManagedEntity p tx) xs st))"
  "touches (set xs) st (snd (forEach (processProperties p) xs st))"
  by (rule touches_forEach, rule touches_persistNewEntity, assumption)
     (rule touches_forEach, rule touches_persistManagedEntity, assumption,
      rule touches_forEach, rule touches_processProperties, assumption)

lemma persistManagedEntity_persisted:
  assumes "persistManagedEntity p tx c st = (None, st')"
  shows "cs_persisted (changeSets st' c)"
  using assms
  by (auto simp add: persistManagedEntity_def Let_def split: option.splits prod.splits sum.splits)

lemma persistNewEntity_persisted:
  assumes "persistNewEntity p tx c st = (None, st')"
  shows "cs_persisted (changeSets st' c)"
  using assms
  by (auto simp add: persistNewEntity_def Let_def split: option.splits prod.splits sum.splits if_splits)

lemma loop_marks_persisted:
  assumes ok: "forEach f xs st = (None, st')"
    and mark: "\<And>x s s'. f x s = (None, s') \<Longrightarrow> cs_persisted (changeSets s' x)"
    and frame: "\<And>x s. touches UNIV s (snd (f x s))"
  shows "\<forall>x \<in> set xs. cs_persisted (changeSets st' x)"
proof
  fix x
  assume "x \<in> set xs"
  then obtain pre post where xs: "xs = pre @ x # post"
    by (auto dest: split_list)
  from ok [unfolded xs] obtain s1 s2 where
    step: "f x s1 = (None, s2)" and rest: "forEach f post s2 = (None, st')"
    by (rule forEach_success_split)
  have "touches UNIV s2 (snd (forEach f post s2))"
    by (rule touches_forEach) (rule frame)
  then have "touches UNIV s2 st'"
    using rest by simp
  then show "cs_persisted (changeSets st' x)"
    using mark [OF step] by (simp add: touches_def)
qed

lemma later_untouched:
  assumes t: "touches (set pre) st1 st2"
    and same: "\<And>x. cs_entity (changeSets st1 x) = cs_entity (changeSets st x)"
    and inj: "distinct (map (\<lambda>x. cs_entity (changeSets st x)) (pre @ c # post))"
    and later: "c' \<in> set post"
  shows "changeSets st2 c' = changeSets st1 c'" "e_props (entityOf st2 c') = e_props (entityOf st1 c')"
proof -
  have apart: "cs_entity (changeSets st c') \<notin> (\<lambda>x. cs_entity (changeSets st x)) ` set pre"
    using inj later by auto
  then have out: "c' \<notin> set pre"
    by auto
  show cs: "changeSets st2 c' = changeSets st1 c'"
    using t out by (simp add: touches_def)
  have "cs_entity (changeSets st1 c') \<notin> (\<lambda>x. cs_entity (changeSets st1 x)) ` set pre"
    using apart by (simp add: same)
  then have "e_props (entities st2 (cs_entity (changeSets st1 c'))) = e_props (entities st1 (cs_entity (changeSets st1 c')))"
    using t unfolding touches_def by blast
  then show "e_props (entityOf st2 c') = e_props (entityOf st1 c')"
    by (simp add: cs)
qed

subsection \<open>What property resolution leaves alone\<close>

lemma mapPrimaryKey_changeSets [simp]: "changeSets (snd (mapPrimaryKey p meta v c st)) = changeSets st"
  by (simp add: mapPrimaryKey_def Let_def state_simps split: option.splits)

lemma processProperty_persisted:
  "cs_persisted (changeSets (snd (processProperty p c q st)) x) = cs_persisted (changeSets st x)"
  by (simp add: processProperty_def Let_def split_def state_simps split: option.splits val.splits)

lemma processProperties_persisted:
  "cs_persisted (changeSets (snd (processProperties p c st)) x) = cs_persisted (changeSets st x)"
proof (cases "metadata p (cs_name (changeSets st c))")
  case None
  then show ?thesis by (simp add: processProperties_def)
next
  case (Some meta)
  have "cs_persisted (changeSets (snd (forEach (processProperty p c) (m_properties meta) st)) x) = cs_persisted (changeSets st x)"
    by (rule forEach_invariant [where I = "\<lambda>s::state. cs_persisted (changeSets s x) = cs_persisted (changeSets st x)"])
       (simp_all add: processProperty_persisted)
  then show ?thesis using Some by (simp add: processProperties_def)
qed

lemma resolution_keeps_persisted:
  "cs_persisted (changeSets (snd (forEach (processProperties p) xs st)) x) = cs_persisted (changeSets st x)"
  by (rule forEach_invariant [where I = "\<lambda>s::state. cs_persisted (changeSets s x) = cs_persisted (changeSets st x)"])
     (simp_all add: processProperties_persisted)

lemma processProperty_keeps_field:
  assumes "cs_type (changeSets st c) = UPDATE" and "p_name q = k \<longrightarrow> p_onUpdate q = None"
  shows "getProp (e_props (entities (snd (processProperty p c q st)) r)) k = getProp (e_props (entities st r)) k"
  using assms
  by (auto simp add: processProperty_def Let_def split_def state_simps getProp_setProp split: option.splits val.splits)

lemma processProperties_keeps_field:
  assumes update: "cs_type (changeSets st c) = UPDATE"
    and meta: "metadata p (cs_name (changeSets st c)) = Some meta"
    and plain: "\<forall>q \<in> set (m_properties meta). p_name q = k \<longrightarrow> p_onUpdate q = None"
  shows "getProp (e_props (entities (snd (processProperties p c st)) r)) k = getProp (e_props (entities st r)) k"
proof -
  let ?I = "\<lambda>s::state. cs_type (changeSets s c) = UPDATE \<and> getProp (e_props (entities s r)) k = getProp (e_props (entities st r)) k"
  have "?I (snd (forEach (processProperty p c) (m_properties meta) st))"
  proof (rule forEach_invariant [where I = ?I])
    show "?I st" using update by simp
  next
    fix q s
    assume q: "q \<in> set (m_properties meta)" and inv: "?I s"
    have "touches {c} s (snd (processProperty p c q s))"
      by (rule touches_processProperty) simp
    then have "cs_type (changeSets (snd (processProperty p c q s)) c) = UPDATE"
      using inv by (simp add: touches_def)
    moreover have "getProp (e_props (entities (snd (processProperty p c q s)) r)) k = getProp (e_props (entities s r)) k"
      using inv q plain by (intro processProperty_keeps_field) auto
    ultimately show "?I (snd (processProperty p c q s))"
      using inv by simp
  qed
  then show ?thesis
    using meta by (simp add: processProperties_def)
qed

lemma resolution_keeps_field:
  assumes inj: "distinct (map (\<lambda>x. cs_entity (changeSets st x)) xs)"
    and update: "cs_type (changeSets st c) = UPDATE"
    and meta: "metadata p (cs_name (changeSets st c)) = Some meta"
    and plain: "\<forall>q \<in> set (m_properties meta). p_name q = k \<longrightarrow> p_onUpdate q = None"
    and mem: "c \<in> set xs"
  shows "getProp (e_props (entityOf (snd (forEach (processProperties p) xs st)) c)) k = getProp (e_props (entityOf st c)) k"
proof -
  let ?r = "cs_entity (changeSets st c)"
  let ?I = "\<lambda>s::state. touches UNIV st s \<and> getProp (e_props (entities s ?r)) k = getProp (e_props (entities st ?r)) k"
  have "?I (snd (forEach (processProperties p) xs st))"
  proof (rule forEach_invariant [where I = ?I])
    show "?I st" by (simp add: touches_refl)
  next
    fix x s
    assume x: "x \<in> set xs" and inv: "?I s"
    let ?s' = "snd (processProperties p x s)"
    have same: "cs_entity (changeSets s y) = cs_entity (changeSets st y)"
      "cs_type (changeSets s y) = cs_type (changeSets st y)" "cs_name (changeSets s y) = cs_name (changeSets st y)" for y
      using inv by (simp_all add: touches_def)
    have step: "touches {x} s ?s'"
      by (rule touches_processProperties) simp
    have field: "getProp (e_props (entities ?s' ?r)) k = getProp (e_props (entities s ?r)) k"
    proof (cases "x = c")
      case True
      show ?thesis
        unfolding True
        by (rule processProperties_keeps_field [where meta = meta]) (simp_all add: same update meta plain)
    next
      case False
      then have "cs_entity (changeSets st x) \<noteq> ?r"
        using inj x mem by (auto simp add: distinct_map inj_on_def)
      then have "?r \<notin> (\<lambda>y. cs_entity (changeSets s y)) ` {x}"
        by (simp add: same)
      then have "e_props (entities ?s' ?r) = e_props (entities s ?r)"
        using step unfolding touches_def by blast
      then show ?thesis by simp
    qed
    have "touches UNIV st ?s'"
      using inv touches_mono [OF step, of UNIV] by (auto intro: touches_trans)
    then show "?I ?s'"
      using field inv by simp
  qed
  then show ?thesis
    by (simp add: touches_def)
qed

subsection \<open>A successful insert step\<close>







subsection \<open>The primary key depends on the key properties only\<close>

lemma getPrimaryKeyCond_agree:
  assumes "\<forall>k \<in> set pks. getProp props' k = getProp props k"
  shows "getPrimaryKeyCond props' pks = getPrimaryKeyCond props pks"
proof -
  have "foldl (\<lambda>acc k. setProp acc k (getProp props' k)) acc0 pks = foldl (\<lambda>acc k. setProp acc k (getProp props k)) acc0 pks" for acc0
    using assms by (induction pks arbitrary: acc0) simp_all
  then show ?thesis
    by (simp add: getPrimaryKeyCond_def)
qed

lemma primaryKey_agree:
  assumes "e_meta e' = e_meta e"
    and "\<forall>k \<in> set (keyNames (e_meta e)). getProp (e_props e') k = getProp (e_props e) k"
  shows "primaryKey e' = primaryKey e"
  using assms getPrimaryKeyCond_agree [of "m_primaryKeys (e_meta e)" "e_props e'" "e_props e"]
  by (simp add: primaryKey_def Let_def keyNames_def)

lemma held_key_defined:
  assumes "\<forall>k \<in> set (keyNames (e_meta e)). isDefined (getProp (e_props e) k)"
  shows "isDefined (primaryKey e)"
  using assms by (simp add: primaryKey_def Let_def keyNames_def)

lemma simple_key_held:
  assumes "length (m_primaryKeys (e_meta e)) \<le> 1"
  shows "(\<forall>k \<in> set (keyNames (e_meta e)). isDefined (getProp (e_props e) k)) \<longleftrightarrow> isDefined (primaryKey e)"
proof (cases "m_primaryKeys (e_meta e)")
  case Nil
  then show ?thesis by (simp add: primaryKey_def keyNames_def)
next
  case (Cons k ks)
  then have "ks = []" using assms by simp
  then show ?thesis using Cons by (simp add: primaryKey_def keyNames_def firstKey_def)
qed


subsection \<open>The follow-up lookup of a write\<close>

lemma mapPrimaryKey_log:
  "mapPrimaryKey p meta v c (st\<lparr>calls := x\<rparr>) =
     (fst (mapPrimaryKey p meta v c st), (snd (mapPrimaryKey p meta v c st))\<lparr>calls := x\<rparr>)"
  by (simp add: mapPrimaryKey_def Let_def setPrimaryKey_def setEntityProp_def split: option.splits)

lemma markAsPopulated_keeps:
  "cs_entity (changeSets (markAsPopulated c meta st) x) = cs_entity (changeSets st x)"
  "e_meta (entities (markAsPopulated c meta st) r) = e_meta (entities st r)"
  using touches_markAsPopulated [of "{}" st c meta] by (simp_all add: touches_def)

lemma primaryKey_cong:
  "e_meta e' = e_meta e \<Longrightarrow> e_props e' = e_props e \<Longrightarrow> primaryKey e' = primaryKey e"
  by (simp add: primaryKey_def Let_def)

lemma forEach_from:
  assumes "forEach f pre st = (None, s1)"
  shows "forEach f (pre @ x # post) st =
           (case f x s1 of (Some e, s) \<Rightarrow> (Some e, s) | (None, s) \<Rightarrow> forEach f post s)"
  using assms by (simp add: forEach_append)

lemma touches_after_step:
  assumes pre: "forEach f pre st = (None, s1)"
    and frame: "\<And>y s. y \<in> set post \<Longrightarrow> touches (set post) s (snd (f y s))"
  shows "touches (set post) (snd (f x s1)) (snd (forEach f (pre @ x # post) st))"
proof (cases "f x s1")
  case (Pair e s)
  show ?thesis
  proof (cases e)
    case None
    have "touches (set post) s (snd (forEach f post s))"
      by (rule touches_forEach) (rule frame)
    then show ?thesis
      using Pair None by (simp add: forEach_from [OF pre])
  next
    case (Some err)
    then show ?thesis
      using Pair by (simp add: forEach_from [OF pre] touches_refl)
  qed
qed

lemma persistManagedEntity_lookup:
  assumes meta: "metadata p (cs_name (changeSets st c)) = Some meta"
    and versioned: "versionOf meta = Some vp"
    and update: "cs_type (changeSets st c) = UPDATE"
    and reply: "updateEntity p meta c tx st = (Inr res, st1)"
    and rows: "truthy (affectedRows res)"
  shows "calls (snd (persistManagedEntity p tx c st)) =
           calls st1 @ [FindOne (m_name meta) (primaryKey (entities (mapReturnedValues p (cs_entity (changeSets st c)) res meta st1) (cs_entity (changeSets st c)))) [vp] tx
                      (findOne (driver p) (calls st1) (m_name meta) (primaryKey (entities (mapReturnedValues p (cs_entity (changeSets st c)) res meta st1) (cs_entity (changeSets st c)))) [vp] tx)]"
    and "findOne (driver p) (calls st1) (m_name meta) (primaryKey (entities (mapReturnedValues p (cs_entity (changeSets st c)) res meta st1) (cs_entity (changeSets st c)))) [vp] tx = Inr (Some e)
           \<Longrightarrow> getProp (e_props (entityOf (snd (persistManagedEntity p tx c st)) c)) vp = getProp e vp"
    and "vp \<notin> set (keyNames (e_meta (entityOf st c)))
           \<Longrightarrow> primaryKey (entityOf (snd (persistManagedEntity p tx c st)) c)
                 = primaryKey (entities (mapReturnedValues p (cs_entity (changeSets st c)) res meta st1) (cs_entity (changeSets st c)))"
proof -
  let ?r = "cs_entity (changeSets st c)"
  let ?s2 = "mapReturnedValues p ?r res meta st1"
  let ?pk = "primaryKey (entities ?s2 ?r)"
  let ?found = "findOne (driver p) (calls st1) (m_name meta) ?pk [vp] tx"
  let ?s = "?s2\<lparr>calls := calls st1 @ [FindOne (m_name meta) ?pk [vp] tx ?found]\<rparr>"
  have st1: "changeSets st1 = changeSets st"
    using reply by (auto simp add: updateEntity_def Let_def)
  have lock: "processOptimisticLock p meta c res tx ?s2 =
      (case ?found of Inl err \<Rightarrow> (Some (DriverError err), ?s)
       | Inr None \<Rightarrow> (Some TypeError, ?s)
       | Inr (Some e) \<Rightarrow> (None, setEntityProp ?r vp (getProp e vp) ?s))"
    using versioned update rows by (simp add: processOptimisticLock_def Let_def st1)
  have run: "persistManagedEntity p tx c st =
      (case ?found of Inl err \<Rightarrow> (Some (DriverError err), ?s)
       | Inr None \<Rightarrow> (Some TypeError, ?s)
       | Inr (Some e) \<Rightarrow> (None, (setEntityProp ?r vp (getProp e vp) ?s)
            \<lparr>changeSets := (changeSets ?s)(c := (changeSets ?s c)\<lparr>cs_persisted := True\<rparr>)\<rparr>))"
    using meta reply
    by (simp add: persistManagedEntity_def st1 lock state_simps split: sum.splits option.splits)
  have r: "cs_entity (changeSets ?s c) = ?r"
    by (simp add: st1)
  have t: "touches {c} ?s (snd (persistManagedEntity p tx c st))"
    unfolding run touches_def
    by (auto split: sum.splits option.splits simp add: state_simps st1)
  have field: "getProp (e_props (entityOf (snd (persistManagedEntity p tx c st)) c)) vp = getProp e vp"
    if "?found = Inr (Some e)" for e
    unfolding run using that by (simp add: state_simps st1 getProp_setProp)
  have log: "calls (snd (persistManagedEntity p tx c st)) = calls ?s"
    unfolding run by (simp add: state_simps split: sum.splits option.splits)
  have ents1: "entities st1 = entities st"
    using reply by (auto simp add: updateEntity_def Let_def)
  have "touches {c} st1 ?s2"
    by (rule touches_mapReturnedValues) (simp_all add: st1)
  then have m2: "e_meta (entities ?s2 ?r) = e_meta (entities st ?r)"
    by (simp add: touches_def ents1)
  have key: "primaryKey (entityOf (snd (persistManagedEntity p tx c st)) c) = ?pk"
    if "vp \<notin> set (keyNames (e_meta (entityOf st c)))"
  proof -
    have "primaryKey (entities (snd (persistManagedEntity p tx c st)) ?r) = primaryKey (entities ?s2 ?r)"
    proof (rule primaryKey_agree)
      show "e_meta (entities (snd (persistManagedEntity p tx c st)) ?r) = e_meta (entities ?s2 ?r)"
        unfolding run by (simp add: state_simps split: sum.splits option.splits)
      show "\<forall>k \<in> set (keyNames (e_meta (entities ?s2 ?r))).
              getProp (e_props (entities (snd (persistManagedEntity p tx c st)) ?r)) k = getProp (e_props (entities ?s2 ?r)) k"
        unfolding run m2 using that by (auto simp add: state_simps getProp_setProp split: sum.splits option.splits)
    qed
    moreover have "cs_entity (changeSets (snd (persistManagedEntity p tx c st)) c) = ?r"
      unfolding run by (simp add: state_simps st1 split: sum.splits option.splits)
    ultimately show ?thesis by simp
  qed
  show "calls (snd (persistManagedEntity p tx c st)) = calls st1 @ [FindOne (m_name meta) ?pk [vp] tx ?found]"
    by (simp add: log)
  show "getProp (e_props (entityOf (snd (persistManagedEntity p tx c st)) c)) vp = getProp e vp"
    if "?found = Inr (Some e)"
    using that by (rule field)
  show "primaryKey (entityOf (snd (persistManagedEntity p tx c st)) c) = ?pk"
    if "vp \<notin> set (keyNames (e_meta (entityOf st c)))"
    using that by (rule key)
qed

lemma mapPrimaryKey_succeeds:
  assumes "lookupProperty meta (firstKey (m_primaryKeys meta)) \<noteq> None"
    and "identifierMap p (e_uuid (entityOf st c)) \<noteq> None"
  shows "fst (mapPrimaryKey p meta v c st) = None"
  using assms by (auto simp add: mapPrimaryKey_def Let_def state_simps split: option.splits)

lemma persistNewEntity_lookup:
  assumes meta: "metadata p (cs_name (changeSets st c)) = Some meta"
    and versioned: "versionOf meta = Some vp"
    and create: "cs_type (changeSets st c) = CREATE"
    and reply: "nativeInsert (driver p) (calls st) (cs_name (changeSets st c)) (cs_payload (changeSets st c)) tx = Inr res"
    and keyed: "isDefined (primaryKey (entityOf st c))
                \<or> (lookupProperty meta (firstKey (m_primaryKeys meta)) \<noteq> None \<and> identifierMap p (e_uuid (entityOf st c)) \<noteq> None)"
  shows "calls (snd (persistNewEntity p tx c st)) =
           calls st @ [NativeInsert (cs_name (changeSets st c)) (cs_payload (changeSets st c)) tx (Inr res),
                      FindOne (m_name meta) (primaryKey (entityOf (keyAssigned p meta res c st) c)) [vp] tx
                        (findOne (driver p) (calls st @ [NativeInsert (cs_name (changeSets st c)) (cs_payload (changeSets st c)) tx (Inr res)])
                           (m_name meta) (primaryKey (entityOf (keyAssigned p meta res c st) c)) [vp] tx)]"
    and "findOne (driver p) (calls st @ [NativeInsert (cs_name (changeSets st c)) (cs_payload (changeSets st c)) tx (Inr res)])
                           (m_name meta) (primaryKey (entityOf (keyAssigned p meta res c st) c)) [vp] tx = Inr (Some e)
           \<Longrightarrow> getProp (e_props (entityOf (snd (persistNewEntity p tx c st)) c)) vp = getProp e vp"
    and "vp \<notin> set (keyNames (e_meta (entityOf st c)))
           \<Longrightarrow> primaryKey (entityOf (snd (persistNewEntity p tx c st)) c) = primaryKey (entityOf (keyAssigned p meta res c st) c)"
proof -
  let ?r = "cs_entity (changeSets st c)"
  let ?log = "calls st @ [NativeInsert (cs_name (changeSets st c)) (cs_payload (changeSets st c)) tx (Inr res)]"
  let ?K = "keyAssigned p meta res c st"
  let ?pk = "primaryKey (entityOf ?K c)"
  let ?found = "findOne (driver p) ?log (m_name meta) ?pk [vp] tx"
  define st1 where "st1 = st\<lparr>calls := ?log\<rparr>"
  define st2 where "st2 = mapReturnedValues p ?r res meta st1"
  have st2: "st2 = (mapReturnedValues p ?r res meta st)\<lparr>calls := ?log\<rparr>"
    by (simp add: st2_def st1_def mapReturnedValues_log)
  have tR: "touches {c} st (mapReturnedValues p ?r res meta st)"
    by (rule touches_mapReturnedValues) simp_all
  have assigned: "(if \<not> isDefined (primaryKey (entities st1 ?r)) then mapPrimaryKey p meta (insertId res) c st2 else (None, st2))
      = (None, ?K\<lparr>calls := ?log\<rparr>)"
  proof (cases "isDefined (primaryKey (entities st ?r))")
    case True
    then show ?thesis
      by (simp add: st1_def st2 keyAssigned_def)
  next
    case False
    then have "lookupProperty meta (firstKey (m_primaryKeys meta)) \<noteq> None"
      and "identifierMap p (e_uuid (entityOf st c)) \<noteq> None"
      using keyed by simp_all
    moreover have "e_uuid (entityOf (mapReturnedValues p ?r res meta st) c) = e_uuid (entityOf st c)"
      using tR by (simp add: touches_def)
    ultimately have "fst (mapPrimaryKey p meta (insertId res) c (mapReturnedValues p ?r res meta st)) = None"
      by (intro mapPrimaryKey_succeeds) simp_all
    then show ?thesis
      using False by (simp add: st1_def st2 mapPrimaryKey_log keyAssigned_def)
  qed
  define st5 where "st5 = (markAsPopulated c meta (?K\<lparr>calls := ?log\<rparr>))\<lparr>entities := (entities (markAsPopulated c meta (?K\<lparr>calls := ?log\<rparr>)))
              (?r := (entities (markAsPopulated c meta (?K\<lparr>calls := ?log\<rparr>)) ?r)\<lparr>e_initialized := True\<rparr>)\<rparr>"
  have tK: "touches {c} st ?K"
    unfolding keyAssigned_def Let_def
    using touches_trans [OF tR touches_mapPrimaryKey [of c "{c}" _ p meta "insertId res"]] tR by simp
  have shapeK: "cs_entity (changeSets ?K c) = ?r" "cs_type (changeSets ?K c) = CREATE"
    using tK create by (simp_all add: touches_def)
  have shape5: "cs_entity (changeSets st5 c) = ?r" "cs_type (changeSets st5 c) = CREATE" "calls st5 = ?log"
    by (simp_all add: st5_def shapeK)
  have "primaryKey (entities st5 ?r) = primaryKey (entities ?K ?r)"
    by (rule primaryKey_cong) (simp_all add: st5_def markAsPopulated_keeps)
  then have pk5: "primaryKey (entities st5 ?r) = ?pk"
    by (simp add: shapeK)
  let ?s = "st5\<lparr>calls := ?log @ [FindOne (m_name meta) ?pk [vp] tx ?found]\<rparr>"
  have lock: "processOptimisticLock p meta c res tx st5 =
      (case ?found of Inl err \<Rightarrow> (Some (DriverError err), ?s)
       | Inr None \<Rightarrow> (Some TypeError, ?s)
       | Inr (Some e) \<Rightarrow> (None, setEntityProp ?r vp (getProp e vp) ?s))"
    using versioned by (simp add: processOptimisticLock_def Let_def shape5 pk5 split: sum.splits option.splits)
  have run: "persistNewEntity p tx c st =
      (case ?found of Inl err \<Rightarrow> (Some (DriverError err), ?s)
       | Inr None \<Rightarrow> (Some TypeError, ?s)
       | Inr (Some e) \<Rightarrow> (None, (setEntityProp ?r vp (getProp e vp) ?s)
            \<lparr>changeSets := (changeSets ?s)(c := (changeSets ?s c)\<lparr>cs_persisted := True\<rparr>)\<rparr>))"
    using meta reply assigned
    by (simp add: persistNewEntity_def Let_def st1_def [symmetric] st2_def [symmetric] st5_def [symmetric] lock state_simps
          split: sum.splits option.splits)
  have t: "touches {c} ?s (snd (persistNewEntity p tx c st))"
    unfolding run touches_def
    by (auto split: sum.splits option.splits simp add: state_simps shape5)
  have field: "getProp (e_props (entityOf (snd (persistNewEntity p tx c st)) c)) vp = getProp e vp"
    if "?found = Inr (Some e)" for e
    unfolding run using that by (simp add: state_simps shape5 getProp_setProp)
  have log: "calls (snd (persistNewEntity p tx c st)) = calls ?s"
    unfolding run by (simp add: state_simps split: sum.splits option.splits)
  have key: "primaryKey (entityOf (snd (persistNewEntity p tx c st)) c) = ?pk"
    if "vp \<notin> set (keyNames (e_meta (entityOf st c)))"
  proof -
    have m5: "e_meta (entities st5 ?r) = e_meta (entities st ?r)"
      using tK by (simp add: st5_def markAsPopulated_keeps touches_def)
    have "primaryKey (entities (snd (persistNewEntity p tx c st)) ?r) = primaryKey (entities st5 ?r)"
    proof (rule primaryKey_agree)
      show "e_meta (entities (snd (persistNewEntity p tx c st)) ?r) = e_meta (entities st5 ?r)"
        unfolding run by (simp add: state_simps split: sum.splits option.splits)
      show "\<forall>k \<in> set (keyNames (e_meta (entities st5 ?r))).
              getProp (e_props (entities (snd (persistNewEntity p tx c st)) ?r)) k = getProp (e_props (entities st5 ?r)) k"
        unfolding run m5 using that by (auto simp add: state_simps getProp_setProp split: sum.splits option.splits)
    qed
    moreover have "cs_entity (changeSets (snd (persistNewEntity p tx c st)) c) = ?r"
      unfolding run by (simp add: state_simps shape5 split: sum.splits option.splits)
    ultimately show ?thesis by (simp add: pk5)
  qed
  show "calls (snd (persistNewEntity p tx c st)) = calls st @ [NativeInsert (cs_name (changeSets st c)) (cs_payload (changeSets st c)) tx (Inr res),
                      FindOne (m_name meta) ?pk [vp] tx ?found]"
    by (simp add: log)
  show "getProp (e_props (entityOf (snd (persistNewEntity p tx c st)) c)) vp = getProp e vp"
    if "?found = Inr (Some e)"
    using that by (rule field)
  show "primaryKey (entityOf (snd (persistNewEntity p tx c st)) c) = ?pk"
    if "vp \<notin> set (keyNames (e_meta (entityOf st c)))"
    using that by (rule key)
qed



lemma step_survives:
  assumes pre: "forEach f pre st1 = (None, s1)"
    and frame: "\<And>y s C. y \<in> C \<Longrightarrow> touches C s (snd (f y s))"
    and same: "\<And>x. cs_entity (changeSets s1 x) = cs_entity (changeSets st x)"
    and inj: "distinct (map (\<lambda>x. cs_entity (changeSets st x)) (pre @ c # post))"
  shows "\<exists>evs. calls (snd (forEach f (pre @ c # post) st1)) = calls (snd (f c s1)) @ evs"
    and "cs_entity (changeSets (snd (forEach f (pre @ c # post) st1)) c) = cs_entity (changeSets st c)"
    and "cs_entity (changeSets (snd (f c s1)) c) = cs_entity (changeSets st c)"
    and "e_props (entities (snd (forEach f (pre @ c # post) st1)) (cs_entity (changeSets st c)))
           = e_props (entities (snd (f c s1)) (cs_entity (changeSets st c)))"
    and "e_meta (entities (snd (forEach f (pre @ c # post) st1)) (cs_entity (changeSets st c)))
           = e_meta (entities (snd (f c s1)) (cs_entity (changeSets st c)))"
proof -
  let ?s = "snd (f c s1)"
  let ?final = "snd (forEach f (pre @ c # post) st1)"
  let ?r = "cs_entity (changeSets st c)"
  have step: "touches {c} s1 ?s"
    by (rule frame) simp
  then have same2: "cs_entity (changeSets ?s x) = cs_entity (changeSets st x)" for x
    by (simp add: touches_def same)
  have rest: "touches (set post) ?s ?final"
    using pre by (rule touches_after_step) (rule frame)
  show "\<exists>evs. calls ?final = calls ?s @ evs"
    using rest by (simp add: touches_def)
  show "cs_entity (changeSets ?final c) = ?r"
    using rest by (simp add: touches_def same2)
  show "cs_entity (changeSets ?s c) = ?r"
    by (rule same2)
  have "?r \<notin> (\<lambda>x. cs_entity (changeSets st x)) ` set post"
    using inj by auto
  then have "?r \<notin> (\<lambda>x. cs_entity (changeSets ?s x)) ` set post"
    by (simp add: same2)
  then show "e_props (entities ?final ?r) = e_props (entities ?s ?r)"
    using rest unfolding touches_def by blast
  show "e_meta (entities ?final ?r) = e_meta (entities ?s ?r)"
    using rest by (simp add: touches_def)
qed

subsection \<open>What keeps a field of an entity\<close>

lemma touches_other_entity:
  "touches {c} st st' \<Longrightarrow> cs_entity (changeSets st c) \<noteq> r \<Longrightarrow> e_props (entities st' r) = e_props (entities st r)"
  by (auto simp add: touches_def)

lemma processProperty_keeps_name:
  assumes plain: "cs_entity (changeSets st c) = r \<Longrightarrow> computes (changeSets st c) q \<Longrightarrow> \<not> p_primary q \<and> p_name q \<noteq> k"
  shows "getProp (e_props (entities (snd (processProperty p c q st)) r)) k = getProp (e_props (entities st r)) k"
proof (cases "cs_entity (changeSets st c) = r")
  case False
  have "touches {c} st (snd (processProperty p c q st))"
    by (rule touches_processProperty) simp
  then have "e_props (entities (snd (processProperty p c q st)) r) = e_props (entities st r)"
    using False by (rule touches_other_entity)
  then show ?thesis by simp
next
  case True
  show ?thesis
    using plain [OF True]
    by (auto simp add: processProperty_def Let_def split_def state_simps getProp_setProp computes_def
             split: option.splits val.splits)
qed

lemma processProperties_keeps_name:
  assumes plain: "\<And>meta q. cs_entity (changeSets st c) = r \<Longrightarrow> metadata p (cs_name (changeSets st c)) = Some meta \<Longrightarrow>
                    q \<in> set (m_properties meta) \<Longrightarrow> computes (changeSets st c) q \<Longrightarrow> \<not> p_primary q \<and> p_name q \<noteq> k"
  shows "getProp (e_props (entities (snd (processProperties p c st)) r)) k = getProp (e_props (entities st r)) k"
proof (cases "metadata p (cs_name (changeSets st c))")
  case None
  then show ?thesis by (simp add: processProperties_def)
next
  case (Some meta)
  let ?I = "\<lambda>s::state. cs_entity (changeSets s c) = cs_entity (changeSets st c)
      \<and> cs_type (changeSets s c) = cs_type (changeSets st c)
      \<and> getProp (e_props (entities s r)) k = getProp (e_props (entities st r)) k"
  have "?I (snd (forEach (processProperty p c) (m_properties meta) st))"
  proof (rule forEach_invariant [where I = ?I])
    show "?I st" by simp
  next
    fix q s
    assume q: "q \<in> set (m_properties meta)" and inv: "?I s"
    have "touches {c} s (snd (processProperty p c q s))"
      by (rule touches_processProperty) simp
    then have shape: "cs_entity (changeSets (snd (processProperty p c q s)) c) = cs_entity (changeSets st c)"
      "cs_type (changeSets (snd (processProperty p c q s)) c) = cs_type (changeSets st c)"
      using inv by (simp_all add: touches_def)
    have same: "computes (changeSets s c) q = computes (changeSets st c) q"
      using inv by (simp add: computes_def)
    have "getProp (e_props (entities (snd (processProperty p c q s)) r)) k = getProp (e_props (entities s r)) k"
      using plain [OF _ Some q] inv same by (intro processProperty_keeps_name) simp_all
    then show "?I (snd (processProperty p c q s))"
      using shape inv by simp
  qed
  then show ?thesis
    using Some by (simp add: processProperties_def)
qed

lemma persistNewEntity_keeps_name:
  assumes held: "cs_entity (changeSets st c) = r \<Longrightarrow> isDefined (primaryKey (entities st r))"
    and defined: "isDefined (getProp (e_props (entities st r)) k)"
    and version: "\<And>meta. cs_entity (changeSets st c) = r \<Longrightarrow> metadata p (cs_name (changeSets st c)) = Some meta \<Longrightarrow> versionOf meta \<noteq> Some k"
  shows "getProp (e_props (entities (snd (persistNewEntity p tx c st)) r)) k = getProp (e_props (entities st r)) k"
proof (cases "cs_entity (changeSets st c) = r")
  case False
  have "touches {c} st (snd (persistNewEntity p tx c st))"
    by (rule touches_persistNewEntity) simp
  then have "e_props (entities (snd (persistNewEntity p tx c st)) r) = e_props (entities st r)"
    using False by (rule touches_other_entity)
  then show ?thesis by simp
next
  case True
  let ?reply = "nativeInsert (driver p) (calls st) (cs_name (changeSets st c)) (cs_payload (changeSets st c)) tx"
  show ?thesis
  proof (cases ?reply)
    case (Inl err)
    then show ?thesis
      by (simp add: persistNewEntity_def Let_def)
  next
    case (Inr res)
    define st1 where "st1 = st\<lparr>calls := calls st @ [NativeInsert (cs_name (changeSets st c)) (cs_payload (changeSets st c)) tx (Inr res)]\<rparr>"
    have ents1: "entities st1 = entities st" "changeSets st1 = changeSets st"
      by (simp_all add: st1_def)
    have has: "isDefined (primaryKey (entities st1 r))"
      using held [OF True] by (simp add: ents1)
    show ?thesis
    proof (cases "metadata p (cs_name (changeSets st c))")
      case None
      then show ?thesis
        using Inr by (simp add: persistNewEntity_def Let_def state_simps)
    next
      case (Some meta)
      define st2 where "st2 = mapReturnedValues p r res meta st1"
      define st5 where "st5 = (markAsPopulated c meta st2)\<lparr>entities := (entities (markAsPopulated c meta st2))
              (r := (entities (markAsPopulated c meta st2) r)\<lparr>e_initialized := True\<rparr>)\<rparr>"
      have run: "persistNewEntity p tx c st =
          (case processOptimisticLock p meta c res tx st5 of
             (Some err, st6) \<Rightarrow> (Some err, st6)
           | (None, st6) \<Rightarrow> (None, st6\<lparr>changeSets := (changeSets st6)(c := (changeSets st6 c)\<lparr>cs_persisted := True\<rparr>)\<rparr>))"
        using Inr Some has True
        by (simp add: persistNewEntity_def Let_def st1_def [symmetric] st2_def [symmetric] st5_def [symmetric])
      have "e_props (entities (snd (persistNewEntity p tx c st)) r) = e_props (entities (snd (processOptimisticLock p meta c res tx st5)) r)"
        unfolding run by (simp split: prod.splits option.splits)
      then have "getProp (e_props (entities (snd (persistNewEntity p tx c st)) r)) k = getProp (e_props (entities st5 r)) k"
        using processOptimisticLock_keeps_other_fields [OF version [OF True Some], of p c res tx st5 r] by simp
      also have "\<dots> = getProp (e_props (entities st2 r)) k"
        by (simp add: st5_def)
      also have "\<dots> = getProp (e_props (entities st1 r)) k"
        unfolding st2_def using defined by (intro mapReturnedValues_keeps_defined) (simp add: ents1)
      finally show ?thesis
        by (simp add: ents1)
    qed
  qed
qed

lemma persistManagedEntity_keeps_name:
  assumes defined: "isDefined (getProp (e_props (entities st r)) k)"
    and version: "\<And>meta. cs_entity (changeSets st c) = r \<Longrightarrow> metadata p (cs_name (changeSets st c)) = Some meta \<Longrightarrow> versionOf meta \<noteq> Some k"
  shows "getProp (e_props (entities (snd (persistManagedEntity p tx c st)) r)) k = getProp (e_props (entities st r)) k"
proof (cases "cs_entity (changeSets st c) = r")
  case False
  have "touches {c} st (snd (persistManagedEntity p tx c st))"
    by (rule touches_persistManagedEntity) simp
  then have "e_props (entities (snd (persistManagedEntity p tx c st)) r) = e_props (entities st r)"
    using False by (rule touches_other_entity)
  then show ?thesis by simp
next
  case True
  show ?thesis
  proof (cases "metadata p (cs_name (changeSets st c))")
    case None
    then show ?thesis by (simp add: persistManagedEntity_def)
  next
    case (Some meta)
    obtain reply st1 where upd: "updateEntity p meta c tx st = (reply, st1)"
      by (cases "updateEntity p meta c tx st")
    then have ents1: "entities st1 = entities st" "changeSets st1 = changeSets st"
      by (auto simp add: updateEntity_def Let_def)
    show ?thesis
    proof (cases reply)
      case (Inl err)
      then show ?thesis
        using Some upd by (simp add: persistManagedEntity_def ents1)
    next
      case (Inr res)
      define st2 where "st2 = mapReturnedValues p r res meta st1"
      have run: "persistManagedEntity p tx c st =
          (case processOptimisticLock p meta c res tx st2 of
             (Some err, st3) \<Rightarrow> (Some err, st3)
           | (None, st3) \<Rightarrow> (None, st3\<lparr>changeSets := (changeSets st3)(c := (changeSets st3 c)\<lparr>cs_persisted := True\<rparr>)\<rparr>))"
        using Some upd Inr True by (simp add: persistManagedEntity_def Let_def ents1 st2_def)
      have "e_props (entities (snd (persistManagedEntity p tx c st)) r) = e_props (entities (snd (processOptimisticLock p meta c res tx st2)) r)"
        unfolding run by (simp split: prod.splits option.splits)
      then have "getProp (e_props (entities (snd (persistManagedEntity p tx c st)) r)) k = getProp (e_props (entities st2 r)) k"
        using processOptimisticLock_keeps_other_fields [OF version [OF True Some], of p c res tx st2 r] by simp
      also have "\<dots> = getProp (e_props (entities st1 r)) k"
        unfolding st2_def using defined by (intro mapReturnedValues_keeps_defined) (simp add: ents1)
      finally show ?thesis
        by (simp add: ents1)
    qed
  qed
qed

lemma mapReturnedValues_meta:
  "e_meta (entities (mapReturnedValues p r res meta st) r') = e_meta (entities st r')"
proof -
  have "e_meta (entities (foldl (hydrateProperty p r data) st ps) r') = e_meta (entities st r')" for data ps
    by (induction ps rule: rev_induct) (auto simp add: hydrateProperty_def state_simps split: option.splits)
  then show ?thesis
    by (simp add: mapReturnedValues_def hydrate_def split: option.splits)
qed

lemma executeDeletes_entities: "entities (snd (executeDeletes p css tx st)) = entities st"
  by (simp add: executeDeletes_def Let_def split: list.splits sum.splits)

subsection \<open>What a successful insert step leaves\<close>



subsection \<open>Delete flow\<close>

text \<open>
  C10: called with an empty list of change sets, \<open>executeDeletes\<close> is not a no-op: reading
  the first change set's entity fails (a \<open>TypeError\<close>) before any driver call is issued,
  and nothing is changed.
\<close>

theorem executeDeletes_empty:
  "executeDeletes p [] tx st = (Some TypeError, st)"
  by (simp add: executeDeletes_def)

text \<open>
  C5: for a non-empty batch of one entity type, \<open>executeDeletes\<close> issues exactly one
  \<open>nativeDelete\<close> call, named after the first change set, whose predicate is the in-set
  condition \<open>{[pk]: {$in: pks}}\<close>: for a composite key \<open>pks\<close> lists, in change-set order,
  each entity's tuple of key values in the order of \<open>meta.primaryKeys\<close>, for a simple key
  each entity's scalar key value. Nothing but the driver log changes: no property is
  resolved, no lock is checked, no entity or change set is touched.
\<close>

theorem executeDeletes_single_call:
  assumes nonempty: "css \<noteq> []"
    and same_type: "\<forall>c \<in> set css. e_meta (entityOf st c) = meta"
    and shape: "m_compositePK meta \<longleftrightarrow> 1 < length (m_primaryKeys meta)"
  shows "\<exists>reply cond.
           cond = VObj [(getPrimaryKeyHash p (m_primaryKeys meta),
                         VObj [(''$in'', VList (if m_compositePK meta
                            then map (\<lambda>c. VList (map (getProp (e_props (entityOf st c))) (m_primaryKeys meta))) css
                            else map (\<lambda>c. getProp (e_props (entityOf st c)) (firstKey (m_primaryKeys meta))) css))])]
         \<and> reply = nativeDelete (driver p) (calls st) (cs_name (changeSets st (hd css))) cond tx
         \<and> snd (executeDeletes p css tx st) = st\<lparr>calls := calls st @ [NativeDelete (cs_name (changeSets st (hd css))) cond tx reply]\<rparr>
         \<and> fst (executeDeletes p css tx st) = (case reply of Inl err \<Rightarrow> Some (DriverError err) | Inr _ \<Rightarrow> None)"
proof -
  obtain c0 rest where css: "css = c0 # rest"
    using nonempty by (cases css) auto
  define code_pks where "code_pks =
    (if m_compositePK meta then map (\<lambda>c. VList (primaryKeys (entityOf st c))) css
     else map (\<lambda>c. primaryKey (entityOf st c)) css)"
  define cond where "cond = VObj [(getPrimaryKeyHash p (m_primaryKeys meta), VObj [(''$in'', VList code_pks)])]"
  define reply where "reply = nativeDelete (driver p) (calls st) (cs_name (changeSets st c0)) cond tx"
  have m0: "e_meta (entityOf st c0) = meta"
    using same_type css by simp
  have run: "executeDeletes p css tx st =
      (case reply of Inl err \<Rightarrow> Some (DriverError err) | Inr _ \<Rightarrow> None,
       st\<lparr>calls := calls st @ [NativeDelete (cs_name (changeSets st c0)) cond tx reply]\<rparr>)"
    unfolding executeDeletes_def css list.case Let_def m0
    by (simp add: reply_def cond_def code_pks_def css split: sum.splits)
  have tuples: "map (\<lambda>c. VList (primaryKeys (entityOf st c))) css
      = map (\<lambda>c. VList (map (getProp (e_props (entityOf st c))) (m_primaryKeys meta))) css"
    using same_type by (simp add: primaryKeys_def)
  have scalars: "map (\<lambda>c. primaryKey (entityOf st c)) css
      = map (\<lambda>c. getProp (e_props (entityOf st c)) (firstKey (m_primaryKeys meta))) css"
    if "\<not> m_compositePK meta"
    using same_type shape that by (simp add: primaryKey_def)
  have pks: "code_pks = (if m_compositePK meta
                            then map (\<lambda>c. VList (map (getProp (e_props (entityOf st c))) (m_primaryKeys meta))) css
                            else map (\<lambda>c. getProp (e_props (entityOf st c)) (firstKey (m_primaryKeys meta))) css)"
    unfolding code_pks_def using tuples scalars by simp
  show ?thesis
    unfolding run using pks by (simp add: cond_def reply_def css)
qed

text \<open>The spec's example: deleting \<open>[User{id:1}, User{id:2}]\<close> is one call with \<open>{id: {$in: [1, 2]}}\<close>.\<close>

theorem executeDeletes_single_call_witness:
  "[0, 1] \<noteq> ([] :: nat list)
   \<and> e_meta (entityOf delState 0) = userMeta \<and> e_meta (entityOf delState 1) = userMeta
   \<and> (m_compositePK userMeta \<longleftrightarrow> 1 < length (m_primaryKeys userMeta))
   \<and> executeDeletes (mkPersister okDriver) [0, 1] None delState =
       (None, delState\<lparr>calls := [NativeDelete ''User'' (VObj [(''id'', VObj [(''$in'', VList [VNum 1, VNum 2])])]) None
                (Inr \<lparr>affectedRows = VNum 2, insertId = VUndefined, row = None\<rparr>)]\<rparr>)"
  using executeDeletes_single_call [of "[0, 1]" delState userMeta "mkPersister okDriver" None]
  by (simp add: example_defs accessor_defs prod_eq_iff)

subsection \<open>Update predicate\<close>

text \<open>
  C4: \<open>updateEntity\<close> issues one \<open>nativeUpdate\<close> call with the change set's name and
  payload. Its predicate is the entity's primary key alone when the type has no version
  property or the entity's version value is falsy (unset, or 0), and the primary-key
  condition extended by "version property = the entity's current version value" when
  that value is truthy.
\<close>

theorem updateEntity_predicate:
  "\<exists>cond res.
      updateEntity p meta c tx st =
        (res, st\<lparr>calls := calls st @ [NativeUpdate (cs_name (changeSets st c)) cond (cs_payload (changeSets st c)) tx res]\<rparr>)
    \<and> res = nativeUpdate (driver p) (calls st) (cs_name (changeSets st c)) cond (cs_payload (changeSets st c)) tx
    \<and> (case versionOf meta of
         None \<Rightarrow> cond = primaryKey (entityOf st c)
       | Some vp \<Rightarrow>
           if truthy (getProp (e_props (entityOf st c)) vp)
           then cond = VObj (setProp (getPrimaryKeyCond (e_props (entityOf st c)) (m_primaryKeys meta)) vp
                               (getProp (e_props (entityOf st c)) vp))
           else cond = primaryKey (entityOf st c))"
  by (simp add: updateEntity_def Let_def split: option.splits)

text \<open>A version of 0 gives the bare primary key, a version of 3 the guarded predicate.\<close>

theorem updateEntity_predicate_witness:
  "fst (updateEntity (mkPersister okDriver) userMeta 0 None (updState (VNum 0))) = Inr okUpdate
   \<and> calls (snd (updateEntity (mkPersister okDriver) userMeta 0 None (updState (VNum 0)))) =
       [NativeUpdate ''User'' (VNum 42) [(''count'', VNum 8)] None (Inr okUpdate)]
   \<and> calls (snd (updateEntity (mkPersister okDriver) userMeta 0 None (updState (VNum 3)))) =
       [NativeUpdate ''User'' (VObj [(''id'', VNum 42), (''version'', VNum 3)]) [(''count'', VNum 8)] None
          (Inr okUpdate)]"
  using updateEntity_predicate [of "mkPersister okDriver" userMeta 0 None "updState (VNum 0)"]
        updateEntity_predicate [of "mkPersister okDriver" userMeta 0 None "updState (VNum 3)"]
  by (auto simp add: example_defs accessor_defs)

subsection \<open>Optimistic-lock reconciliation\<close>

text \<open>
  C3: in \<open>executeUpdates\<close> and \<open>executeInserts\<close> on a batch of pairwise distinct entities
  whose property resolution succeeds, take a change set \<open>c\<close> of a versioned type that the
  persist loop reaches. If \<open>c\<close> is an UPDATE whose \<open>nativeUpdate\<close> answers with a nonzero
  affected-row count, or a CREATE whose \<open>nativeInsert\<close> answers with a result (the key
  being set, or assignable: the key property is declared and the entity has a
  placeholder), then the very next driver call after that write is a \<open>findOne\<close> on the
  type for the entity's primary key, restricted to the version property; when that
  lookup returns a row, the entity's version property at the end of the call is the
  row's value, whatever value the write had sent; and the key looked up is the primary key
  the entity holds at the end of the call (the version property not being a key
  property).
\<close>

theorem lookup_follows_write:
  assumes resolved: "forEach (processProperties p) (pre @ c # post) st = (None, st1)"
    and inj: "distinct (map (\<lambda>x. cs_entity (changeSets st x)) (pre @ c # post))"
    and meta: "metadata p (cs_name (changeSets st c)) = Some meta"
    and versioned: "versionOf meta = Some vp"
  shows "(forEach (persistManagedEntity p tx) pre st1 = (None, st2)
          \<and> cs_type (changeSets st c) = UPDATE
          \<and> updateEntity p meta c tx st2 = (Inr res, st3)
          \<and> truthy (affectedRows res)
          \<longrightarrow> (let pk = primaryKey (entities (mapReturnedValues p (cs_entity (changeSets st c)) res meta st3) (cs_entity (changeSets st c)));
                   found = findOne (driver p) (calls st3) (m_name meta) pk [vp] tx;
                   final = snd (executeUpdates p (pre @ c # post) tx st)
               in (\<exists>evs. calls final = calls st3 @ FindOne (m_name meta) pk [vp] tx found # evs)
                \<and> (\<forall>e. found = Inr (Some e) \<longrightarrow> getProp (e_props (entityOf final c)) vp = getProp e vp)
                \<and> (vp \<notin> set (keyNames (e_meta (entityOf st c))) \<longrightarrow> pk = primaryKey (entityOf final c))))
       \<and> (forEach (persistNewEntity p tx) pre st1 = (None, st2)
          \<and> cs_type (changeSets st c) = CREATE
          \<and> nativeInsert (driver p) (calls st2) (cs_name (changeSets st2 c)) (cs_payload (changeSets st2 c)) tx = Inr res
          \<and> (isDefined (primaryKey (entityOf st2 c))
               \<or> lookupProperty meta (firstKey (m_primaryKeys meta)) \<noteq> None \<and> identifierMap p (e_uuid (entityOf st c)) \<noteq> None)
          \<longrightarrow> (let written = calls st2 @ [NativeInsert (cs_name (changeSets st2 c)) (cs_payload (changeSets st2 c)) tx (Inr res)];
                   pk = primaryKey (entityOf (keyAssigned p meta res c st2) c);
                   found = findOne (driver p) written (m_name meta) pk [vp] tx;
                   final = snd (executeInserts p (pre @ c # post) tx st)
               in (\<exists>evs. calls final = written @ FindOne (m_name meta) pk [vp] tx found # evs)
                \<and> (\<forall>e. found = Inr (Some e) \<longrightarrow> getProp (e_props (entityOf final c)) vp = getProp e vp)
                \<and> (vp \<notin> set (keyNames (e_meta (entityOf st c))) \<longrightarrow> pk = primaryKey (entityOf final c))))"
proof (intro conjI impI; elim conjE)
  let ?r = "cs_entity (changeSets st c)"
  have t1: "touches UNIV st st1"
    using touches_batch(3) [of "pre @ c # post" st p] resolved by (simp add: touches_mono)
  {
    assume earlier: "forEach (persistManagedEntity p tx) pre st1 = (None, st2)"
      and update: "cs_type (changeSets st c) = UPDATE"
      and reply: "updateEntity p meta c tx st2 = (Inr res, st3)"
      and rows: "truthy (affectedRows res)"
    let ?pk = "primaryKey (entities (mapReturnedValues p ?r res meta st3) ?r)"
    let ?found = "findOne (driver p) (calls st3) (m_name meta) ?pk [vp] tx"
    let ?step = "snd (persistManagedEntity p tx c st2)"
    let ?final = "snd (executeUpdates p (pre @ c # post) tx st)"
    have "touches UNIV st1 st2"
      using touches_batch(2) [of pre st1 p tx] earlier by (simp add: touches_mono)
    then have t2: "touches UNIV st st2"
      using t1 by (blast intro: touches_trans)
    then have same: "cs_entity (changeSets st2 x) = cs_entity (changeSets st x)" "cs_name (changeSets st2 x) = cs_name (changeSets st x)"
      "cs_type (changeSets st2 x) = cs_type (changeSets st x)" "e_meta (entities st2 y) = e_meta (entities st y)" for x y
      by (simp_all add: touches_def)
    have final: "?final = snd (forEach (persistManagedEntity p tx) (pre @ c # post) st1)"
      using resolved by (simp add: executeUpdates_def)
    note survives = step_survives [of "persistManagedEntity p tx" pre st1 st2 st c post,
        OF earlier touches_persistManagedEntity same(1) inj, folded final]
    have meta2: "metadata p (cs_name (changeSets st2 c)) = Some meta" and update2: "cs_type (changeSets st2 c) = UPDATE"
      using meta update by (simp_all add: same)
    note inst = persistManagedEntity_lookup [OF meta2 versioned update2 reply rows, unfolded same]
    have log: "calls ?step = calls st3 @ [FindOne (m_name meta) ?pk [vp] tx ?found]"
      by (rule inst(1))
    have a: "\<exists>evs. calls ?final = calls st3 @ FindOne (m_name meta) ?pk [vp] tx ?found # evs"
      using survives(1) by (auto simp add: log)
    have props: "e_props (entityOf ?final c) = e_props (entityOf ?step c)"
      using survives(2,3,4) by simp
    have b: "getProp (e_props (entityOf ?final c)) vp = getProp e vp" if "?found = Inr (Some e)" for e
      using inst(2) [OF that] by (simp add: props)
    have "primaryKey (entityOf ?final c) = primaryKey (entityOf ?step c)"
      using survives(2,3,4,5) by (intro primaryKey_cong) simp_all
    then have d: "?pk = primaryKey (entityOf ?final c)" if "vp \<notin> set (keyNames (e_meta (entityOf st c)))"
      using inst(3) [OF that] by simp
    show "let pk = ?pk; found = findOne (driver p) (calls st3) (m_name meta) pk [vp] tx; final = ?final
          in (\<exists>evs. calls final = calls st3 @ FindOne (m_name meta) pk [vp] tx found # evs)
           \<and> (\<forall>e. found = Inr (Some e) \<longrightarrow> getProp (e_props (entityOf final c)) vp = getProp e vp)
           \<and> (vp \<notin> set (keyNames (e_meta (entityOf st c))) \<longrightarrow> pk = primaryKey (entityOf final c))"
      unfolding Let_def using a b d by blast
  }
  {
    assume earlier: "forEach (persistNewEntity p tx) pre st1 = (None, st2)"
      and create: "cs_type (changeSets st c) = CREATE"
      and reply: "nativeInsert (driver p) (calls st2) (cs_name (changeSets st2 c)) (cs_payload (changeSets st2 c)) tx = Inr res"
      and keyed: "isDefined (primaryKey (entityOf st2 c))
               \<or> lookupProperty meta (firstKey (m_primaryKeys meta)) \<noteq> None \<and> identifierMap p (e_uuid (entityOf st c)) \<noteq> None"
    let ?written = "calls st2 @ [NativeInsert (cs_name (changeSets st2 c)) (cs_payload (changeSets st2 c)) tx (Inr res)]"
    let ?pk = "primaryKey (entityOf (keyAssigned p meta res c st2) c)"
    let ?found = "findOne (driver p) ?written (m_name meta) ?pk [vp] tx"
    let ?step = "snd (persistNewEntity p tx c st2)"
    let ?final = "snd (executeInserts p (pre @ c # post) tx st)"
    have "touches UNIV st1 st2"
      using touches_batch(1) [of pre st1 p tx] earlier by (simp add: touches_mono)
    then have t2: "touches UNIV st st2"
      using t1 by (blast intro: touches_trans)
    then have same: "cs_entity (changeSets st2 x) = cs_entity (changeSets st x)" "cs_name (changeSets st2 x) = cs_name (changeSets st x)"
      "cs_type (changeSets st2 x) = cs_type (changeSets st x)" "e_meta (entities st2 y) = e_meta (entities st y)"
      "e_uuid (entities st2 y) = e_uuid (entities st y)" for x y
      by (simp_all add: touches_def)
    have final: "?final = snd (forEach (persistNewEntity p tx) (pre @ c # post) st1)"
      using resolved by (simp add: executeInserts_def)
    note survives = step_survives [of "persistNewEntity p tx" pre st1 st2 st c post,
        OF earlier touches_persistNewEntity same(1) inj, folded final]
    have meta2: "metadata p (cs_name (changeSets st2 c)) = Some meta" and create2: "cs_type (changeSets st2 c) = CREATE"
      and keyed2: "isDefined (primaryKey (entityOf st2 c))
               \<or> lookupProperty meta (firstKey (m_primaryKeys meta)) \<noteq> None \<and> identifierMap p (e_uuid (entityOf st2 c)) \<noteq> None"
      using meta create keyed by (simp_all add: same)
    note inst = persistNewEntity_lookup [OF meta2 versioned create2 reply keyed2, unfolded same(1,4)]
    have log: "calls ?step = ?written @ [FindOne (m_name meta) ?pk [vp] tx ?found]"
      using inst(1) by simp
    have a: "\<exists>evs. calls ?final = ?written @ FindOne (m_name meta) ?pk [vp] tx ?found # evs"
      using survives(1) by (auto simp add: log)
    have props: "e_props (entityOf ?final c) = e_props (entityOf ?step c)"
      using survives(2,3,4) by simp
    have b: "getProp (e_props (entityOf ?final c)) vp = getProp e vp" if "?found = Inr (Some e)" for e
      using inst(2) [OF that] by (simp add: props)
    have "primaryKey (entityOf ?final c) = primaryKey (entityOf ?step c)"
      using survives(2,3,4,5) by (intro primaryKey_cong) simp_all
    then have d: "?pk = primaryKey (entityOf ?final c)" if "vp \<notin> set (keyNames (e_meta (entityOf st c)))"
      using inst(3) [OF that] by simp
    show "let written = ?written; pk = ?pk; found = findOne (driver p) written (m_name meta) pk [vp] tx; final = ?final
          in (\<exists>evs. calls final = written @ FindOne (m_name meta) pk [vp] tx found # evs)
           \<and> (\<forall>e. found = Inr (Some e) \<longrightarrow> getProp (e_props (entityOf final c)) vp = getProp e vp)
           \<and> (vp \<notin> set (keyNames (e_meta (entityOf st c))) \<longrightarrow> pk = primaryKey (entityOf final c))"
      unfolding Let_def using a b d by blast
  }
qed


text \<open>
  An update of \<open>User{id: 42, version: 3}\<close>: the lookup for key 42 follows the update in the
  driver log and the entity holds the looked-up version 9 afterwards. An insert of a
  \<open>User\<close> without id: the lookup for the assigned key 42 follows the insert, and the
  entity holds version 9.
\<close>

theorem lookup_follows_write_witness:
  "forEach (processProperties (mkPersister okDriver)) ([] @ 0 # []) (updState (VNum 3)) = (None, updState (VNum 3))
   \<and> distinct (map (\<lambda>x. cs_entity (changeSets (updState (VNum 3)) x)) ([] @ 0 # []))
   \<and> metadata (mkPersister okDriver) (cs_name (changeSets (updState (VNum 3)) 0)) = Some userMeta
   \<and> versionOf userMeta = Some ''version''
   \<and> forEach (persistManagedEntity (mkPersister okDriver) None) [] (updState (VNum 3)) = (None, updState (VNum 3))
   \<and> cs_type (changeSets (updState (VNum 3)) 0) = UPDATE
   \<and> fst (updateEntity (mkPersister okDriver) userMeta 0 None (updState (VNum 3))) = Inr okUpdate
   \<and> truthy (affectedRows okUpdate)
   \<and> (\<exists>evs. calls (snd (executeUpdates (mkPersister okDriver) [0] None (updState (VNum 3)))) =
          NativeUpdate ''User'' (VObj [(''id'', VNum 42), (''version'', VNum 3)]) [(''count'', VNum 8)] None (Inr okUpdate)
          # FindOne ''User'' (VNum 42) [''version''] None (Inr (Some [(''version'', VNum 9)])) # evs)
   \<and> getProp (e_props (entityOf (snd (executeUpdates (mkPersister okDriver) [0] None (updState (VNum 3)))) 0)) ''version'' = VNum 9
   \<and> primaryKey (entityOf (snd (executeUpdates (mkPersister okDriver) [0] None (updState (VNum 3)))) 0) = VNum 42
   \<and> forEach (processProperties (mkPersister okDriver)) ([] @ 0 # []) (insState [(''count'', VNum 7)]) = (None, insState [(''count'', VNum 7)])
   \<and> distinct (map (\<lambda>x. cs_entity (changeSets (insState [(''count'', VNum 7)]) x)) ([] @ 0 # []))
   \<and> metadata (mkPersister okDriver) (cs_name (changeSets (insState [(''count'', VNum 7)]) 0)) = Some userMeta
   \<and> forEach (persistNewEntity (mkPersister okDriver) None) [] (insState [(''count'', VNum 7)]) = (None, insState [(''count'', VNum 7)])
   \<and> cs_type (changeSets (insState [(''count'', VNum 7)]) 0) = CREATE
   \<and> nativeInsert (driver (mkPersister okDriver)) (calls (insState [(''count'', VNum 7)]))
        (cs_name (changeSets (insState [(''count'', VNum 7)]) 0)) (cs_payload (changeSets (insState [(''count'', VNum 7)]) 0)) None = Inr okInsert
   \<and> lookupProperty userMeta (firstKey (m_primaryKeys userMeta)) \<noteq> None
   \<and> identifierMap (mkPersister okDriver) (e_uuid (entityOf (insState [(''count'', VNum 7)]) 0)) \<noteq> None
   \<and> (\<exists>evs. calls (snd (executeInserts (mkPersister okDriver) [0] None (insState [(''count'', VNum 7)]))) =
          NativeInsert ''User'' [(''count'', VNum 7)] None (Inr okInsert)
          # FindOne ''User'' (VNum 42) [''version''] None (Inr (Some [(''version'', VNum 9)])) # evs)
   \<and> getProp (e_props (entityOf (snd (executeInserts (mkPersister okDriver) [0] None (insState [(''count'', VNum 7)]))) 0)) ''version'' = VNum 9
   \<and> primaryKey (entityOf (snd (executeInserts (mkPersister okDriver) [0] None (insState [(''count'', VNum 7)]))) 0) = VNum 42"
proof -
  let ?P = "mkPersister okDriver"
  let ?U = "updState (VNum 3)"
  let ?U3 = "snd (updateEntity ?P userMeta 0 None ?U)"
  let ?I = "insState [(''count'', VNum 7)]"
  have versioned: "versionOf userMeta = Some ''version''"
    by (simp add: versionOf_def example_simps)
  have names: "m_name userMeta = ''User''" "''version'' \<notin> set (keyNames userMeta)"
    by (simp_all add: example_simps keyNames_def firstKey_def)
  have found: "findOne (driver ?P) h n k fs tx = Inr (Some [(''version'', VNum 9)])" for h n k fs tx
    by (simp add: example_simps okDriver_def)
  have resolved_u: "forEach (processProperties ?P) ([] @ 0 # []) ?U = (None, ?U)"
    by (simp add: processProperties_def processProperty_def example_simps updState_def getProp_def)
  have inj_u: "distinct (map (\<lambda>x. cs_entity (changeSets ?U x)) ([] @ 0 # []))"
    by simp
  have shape_u: "cs_name (changeSets ?U 0) = ''User''" "cs_type (changeSets ?U 0) = UPDATE" "cs_entity (changeSets ?U 0) = 0"
    "e_meta (entities ?U 0) = userMeta"
    by (simp_all add: example_simps updState_def)
  have meta_u: "metadata ?P (cs_name (changeSets ?U 0)) = Some userMeta"
    by (simp add: shape_u example_simps)
  have earlier_u: "forEach (persistManagedEntity ?P None) [] ?U = (None, ?U)"
    by simp
  have upd: "fst (updateEntity ?P userMeta 0 None ?U) = Inr okUpdate"
    "calls ?U3 = [NativeUpdate ''User'' (VObj [(''id'', VNum 42), (''version'', VNum 3)]) [(''count'', VNum 8)] None (Inr okUpdate)]"
    "entities ?U3 = entities ?U"
    by (simp_all add: updateEntity_def Let_def example_simps okDriver_def updState_def versionOf_def
          getProp_def setProp_def getPrimaryKeyCond_def)
  then have reply_u: "updateEntity ?P userMeta 0 None ?U = (Inr okUpdate, ?U3)"
    by (simp add: prod_eq_iff)
  have rows: "truthy (affectedRows okUpdate)"
    by (simp add: example_simps)
  have "primaryKey (entities ?U 0) = VNum 42"
    by (simp add: example_simps updState_def primaryKey_def firstKey_def getProp_def)
  moreover have "mapReturnedValues ?P 0 okUpdate userMeta ?U3 = ?U3"
    by (simp add: mapReturnedValues_def example_simps)
  ultimately have pk_u: "primaryKey (entities (mapReturnedValues ?P 0 okUpdate userMeta ?U3) 0) = VNum 42"
    using upd(3) by simp
  note main_u = lookup_follows_write [OF resolved_u inj_u meta_u versioned, THEN conjunct1, rule_format,
      of None ?U okUpdate ?U3, OF conjI [OF earlier_u conjI [OF shape_u(2) conjI [OF reply_u rows]]],
      unfolded Let_def shape_u(1,3,4) pk_u found names(1) upd(2)]
  have final_u: "\<exists>evs. calls (snd (executeUpdates ?P [0] None ?U)) =
          NativeUpdate ''User'' (VObj [(''id'', VNum 42), (''version'', VNum 3)]) [(''count'', VNum 8)] None (Inr okUpdate)
          # FindOne ''User'' (VNum 42) [''version''] None (Inr (Some [(''version'', VNum 9)])) # evs"
    "getProp (e_props (entityOf (snd (executeUpdates ?P [0] None ?U)) 0)) ''version'' = VNum 9"
    "primaryKey (entityOf (snd (executeUpdates ?P [0] None ?U)) 0) = VNum 42"
    using main_u [THEN conjunct1] main_u [THEN conjunct2, THEN conjunct1, rule_format, OF refl]
      main_u [THEN conjunct2, THEN conjunct2, rule_format, OF names(2), symmetric]
    by (simp_all add: getProp_def)
  have resolved_i: "forEach (processProperties ?P) ([] @ 0 # []) ?I = (None, ?I)"
    by (simp add: processProperties_def processProperty_def example_simps insState_def getProp_def)
  have inj_i: "distinct (map (\<lambda>x. cs_entity (changeSets ?I x)) ([] @ 0 # []))"
    by simp
  have shape_i: "cs_name (changeSets ?I 0) = ''User''" "cs_type (changeSets ?I 0) = CREATE" "cs_entity (changeSets ?I 0) = 0"
    "e_meta (entities ?I 0) = userMeta" "cs_payload (changeSets ?I 0) = [(''count'', VNum 7)]" "calls ?I = []"
    "e_uuid (entities ?I 0) = ''u0''"
    by (simp_all add: example_simps insState_def)
  have meta_i: "metadata ?P (cs_name (changeSets ?I 0)) = Some userMeta"
    by (simp add: shape_i example_simps)
  have earlier_i: "forEach (persistNewEntity ?P None) [] ?I = (None, ?I)"
    by simp
  have reply_i: "nativeInsert (driver ?P) (calls ?I) (cs_name (changeSets ?I 0)) (cs_payload (changeSets ?I 0)) None = Inr okInsert"
    by (simp add: example_simps okDriver_def)
  have keyed: "lookupProperty userMeta (firstKey (m_primaryKeys userMeta)) \<noteq> None"
    "identifierMap ?P (e_uuid (entityOf ?I 0)) \<noteq> None"
    by (simp_all add: lookupProperty_def firstKey_def example_simps shape_i)
  have pk_i: "primaryKey (entities (keyAssigned ?P userMeta okInsert 0 ?I) 0) = VNum 42"
    "cs_entity (changeSets (keyAssigned ?P userMeta okInsert 0 ?I) 0) = 0"
    by (simp_all add: keyAssigned_def mapReturnedValues_def mapPrimaryKey_def lookupProperty_def convertInsertId_def
          primaryKey_def firstKey_def getProp_def setProp_def example_simps insState_def state_simps Let_def)
  have keyed': "isDefined (primaryKey (entityOf ?I 0))
      \<or> lookupProperty userMeta (firstKey (m_primaryKeys userMeta)) \<noteq> None \<and> identifierMap ?P (e_uuid (entityOf ?I 0)) \<noteq> None"
    using keyed by simp
  note main_i = lookup_follows_write [OF resolved_i inj_i meta_i versioned, THEN conjunct2, rule_format,
      of None ?I okInsert, OF conjI [OF earlier_i conjI [OF shape_i(2) conjI [OF reply_i keyed']]],
      unfolded Let_def pk_i shape_i(1,3,4,5,6) found names(1)]
  have final_i: "\<exists>evs. calls (snd (executeInserts ?P [0] None ?I)) =
          NativeInsert ''User'' [(''count'', VNum 7)] None (Inr okInsert)
          # FindOne ''User'' (VNum 42) [''version''] None (Inr (Some [(''version'', VNum 9)])) # evs"
    "getProp (e_props (entityOf (snd (executeInserts ?P [0] None ?I)) 0)) ''version'' = VNum 9"
    "primaryKey (entityOf (snd (executeInserts ?P [0] None ?I)) 0) = VNum 42"
    using main_i [THEN conjunct1] main_i [THEN conjunct2, THEN conjunct1, rule_format, OF refl]
      main_i [THEN conjunct2, THEN conjunct2, rule_format, OF names(2), symmetric]
    by (simp_all add: getProp_def)
  show ?thesis
    using resolved_u inj_u meta_u versioned earlier_u shape_u(2) upd(1) rows final_u
      resolved_i inj_i meta_i earlier_i shape_i(2) reply_i keyed final_i
    by simp
qed

subsection \<open>Returned-value reconciliation\<close>

text \<open>
  C6: the entity \<open>User{id: 42}\<close> holds no \<open>count\<close>. When the driver's result carries the
  returned row \<open>{count: 0}\<close>, the entity's \<open>count\<close> is still undefined after
  \<open>mapReturnedValues\<close>, although the entity held no defined value for it: the guard
  \<open>res.row[prop.fieldNames[0]] &&\<close> tests the returned value for truthiness, where the
  check on the entity's side beside it asks whether the value is defined. With the
  returned row \<open>{count: 5}\<close> the same call copies the value.
\<close>

theorem mapReturnedValues_drops_falsy:
  "row \<lparr>affectedRows = VNum 1, insertId = VNum 42, row = Some [(''count'', VNum 0)]\<rparr> = Some [(''count'', VNum 0)]
   \<and> [(''count'', VNum 0)] \<noteq> []
   \<and> \<not> isDefined (getProp (e_props (entities (insState [(''id'', VNum 42)]) 0)) ''count'')
   \<and> getProp (e_props (entities (mapReturnedValues (mkPersister okDriver) 0
         \<lparr>affectedRows = VNum 1, insertId = VNum 42, row = Some [(''count'', VNum 0)]\<rparr>
         userMeta (insState [(''id'', VNum 42)])) 0)) ''count'' = VUndefined
   \<and> getProp (e_props (entities (mapReturnedValues (mkPersister okDriver) 0
         \<lparr>affectedRows = VNum 1, insertId = VNum 42, row = Some [(''count'', VNum 5)]\<rparr>
         userMeta (insState [(''id'', VNum 42)])) 0)) ''count'' = VNum 5"
  by (simp add: example_defs accessor_defs mapReturnedValues_def returnedData_def collectReturned_def
        hydrate_def hydrateProperty_def)

subsection \<open>A defined primary key\<close>

text \<open>
  C9, as amended: take an entity whose primary key is defined (for a composite key: each
  of its key properties holds a defined value). Provided that, for every change set of
  the batch that refers to the entity, no compute rule that property resolution applies
  to the change set (compute-on-create for a CREATE, compute-on-update for an UPDATE) is
  declared on a key property or a primary property, and the version property is not a
  key property, the entity's primary key after \<open>executeInserts\<close>, after \<open>executeUpdates\<close>
  and after \<open>executeDeletes\<close> is the one it had before, whether the call succeeds or
  fails. Returned-value reconciliation (\<open>mapReturnedValues\<close>) keeps the key, as it keeps
  every field for which the entity holds a defined value, and primary-key assignment
  (\<open>mapPrimaryKey\<close>) keeps a defined single-column key, whatever id it is given.
\<close>

theorem defined_key_is_kept:
  assumes held: "isDefined (primaryKey (entities st r))"
    and parts: "1 < length (m_primaryKeys (e_meta (entities st r))) \<longrightarrow>
                  (\<forall>k \<in> set (m_primaryKeys (e_meta (entities st r))). isDefined (getProp (e_props (entities st r)) k))"
    and plain: "\<forall>c \<in> set css. \<forall>meta q.
                  cs_entity (changeSets st c) = r \<and> metadata p (cs_name (changeSets st c)) = Some meta
                  \<and> q \<in> set (m_properties meta) \<and> computes (changeSets st c) q
                  \<longrightarrow> \<not> p_primary q \<and> p_name q \<notin> set (keyNames (e_meta (entities st r)))"
    and apart: "\<forall>c \<in> set css. \<forall>meta vp.
                  cs_entity (changeSets st c) = r \<and> metadata p (cs_name (changeSets st c)) = Some meta
                  \<and> versionOf meta = Some vp
                  \<longrightarrow> vp \<notin> set (keyNames (e_meta (entities st r)))"
  shows "primaryKey (entities (snd (executeInserts p css tx st)) r) = primaryKey (entities st r)
       \<and> primaryKey (entities (snd (executeUpdates p css tx st)) r) = primaryKey (entities st r)
       \<and> primaryKey (entities (snd (executeDeletes p css tx st)) r) = primaryKey (entities st r)
       \<and> primaryKey (entities (mapReturnedValues p r res meta' st) r) = primaryKey (entities st r)
       \<and> (\<forall>k. isDefined (getProp (e_props (entities st r)) k) \<longrightarrow>
             getProp (e_props (entities (mapReturnedValues p r res meta' st) r)) k = getProp (e_props (entities st r)) k)
       \<and> (\<forall>c. cs_entity (changeSets st c) = r \<and> length (m_primaryKeys (e_meta (entities st r))) \<le> 1 \<longrightarrow>
             primaryKey (entities (snd (mapPrimaryKey p meta' v c st)) r) = primaryKey (entities st r))"
proof -
  have rules: "\<not> p_primary q \<and> p_name q \<notin> set (keyNames (e_meta (entities st r)))"
    if "c \<in> set css" "cs_entity (changeSets st c) = r" "metadata p (cs_name (changeSets st c)) = Some meta"
      "q \<in> set (m_properties meta)" "computes (changeSets st c) q" for c meta q
    using plain that by blast
  have version: "vp \<notin> set (keyNames (e_meta (entities st r)))"
    if "c \<in> set css" "cs_entity (changeSets st c) = r" "metadata p (cs_name (changeSets st c)) = Some meta"
      "versionOf meta = Some vp" for c meta vp
    using apart that by blast
  define K where "K = set (keyNames (e_meta (entities st r)))"
  define I where "I = (\<lambda>s::state. touches UNIV st s \<and> (\<forall>k \<in> K. getProp (e_props (entities s r)) k = getProp (e_props (entities st r)) k))"
  have keys: "\<forall>k \<in> K. isDefined (getProp (e_props (entities st r)) k)"
  proof (cases "1 < length (m_primaryKeys (e_meta (entities st r)))")
    case True
    then have "firstKey (m_primaryKeys (e_meta (entities st r))) \<in> set (m_primaryKeys (e_meta (entities st r)))"
      by (cases "m_primaryKeys (e_meta (entities st r))") (simp_all add: firstKey_def)
    then show ?thesis
      using parts True by (auto simp add: K_def keyNames_def)
  next
    case False
    then have "length (m_primaryKeys (e_meta (entities st r))) \<le> 1" by simp
    from simple_key_held [OF this] held show ?thesis
      by (simp add: K_def)
  qed
  have start: "I st"
    by (simp add: I_def touches_refl)
  have shape: "cs_entity (changeSets s c) = cs_entity (changeSets st c)" "cs_name (changeSets s c) = cs_name (changeSets st c)"
    "cs_type (changeSets s c) = cs_type (changeSets st c)" "e_meta (entities s y) = e_meta (entities st y)"
    if "I s" for s c y
    using that by (simp_all add: I_def touches_def)
  have defined: "isDefined (getProp (e_props (entities s r)) k)" if "I s" "k \<in> K" for s k
    using that keys by (simp add: I_def)
  have kept: "primaryKey (entities s r) = primaryKey (entities st r)" if "I s" for s
    using that by (intro primaryKey_agree) (simp_all add: I_def touches_def K_def)
  have held': "isDefined (primaryKey (entities s r))" if "I s" for s
    using kept [OF that] held by simp
  have frame: "I s'" if "I s" "touches UNIV s s'"
    "\<And>k. k \<in> K \<Longrightarrow> getProp (e_props (entities s' r)) k = getProp (e_props (entities s r)) k" for s s'
    using that by (auto simp add: I_def intro: touches_trans)
  have resolve: "I (snd (processProperties p c s))" if c: "c \<in> set css" and inv: "I s" for c s
  proof (rule frame [OF inv])
    show "touches UNIV s (snd (processProperties p c s))"
      by (rule touches_processProperties) simp
    fix k assume k: "k \<in> K"
    show "getProp (e_props (entities (snd (processProperties p c s)) r)) k = getProp (e_props (entities s r)) k"
    proof (rule processProperties_keeps_name)
      fix meta q
      assume "cs_entity (changeSets s c) = r" "metadata p (cs_name (changeSets s c)) = Some meta"
        "q \<in> set (m_properties meta)" "computes (changeSets s c) q"
      then have "\<not> p_primary q \<and> p_name q \<notin> K"
        unfolding K_def using rules [of c meta q] c by (simp add: shape [OF inv] computes_def)
      then show "\<not> p_primary q \<and> p_name q \<noteq> k"
        using k by auto
    qed
  qed
  have apart: "versionOf meta \<noteq> Some k"
    if "c \<in> set css" "I s" "k \<in> K" "cs_entity (changeSets s c) = r" "metadata p (cs_name (changeSets s c)) = Some meta" for c s k meta
    using version [of c meta] that by (auto simp add: shape [OF that(2)] K_def)
  have insert: "I (snd (persistNewEntity p tx c s))" if c: "c \<in> set css" and inv: "I s" for c s
  proof (rule frame [OF inv])
    show "touches UNIV s (snd (persistNewEntity p tx c s))"
      by (rule touches_persistNewEntity) simp
    fix k assume k: "k \<in> K"
    show "getProp (e_props (entities (snd (persistNewEntity p tx c s)) r)) k = getProp (e_props (entities s r)) k"
      using held' [OF inv] defined [OF inv k] apart [OF c inv k]
      by (intro persistNewEntity_keeps_name) simp_all
  qed
  have update: "I (snd (persistManagedEntity p tx c s))" if c: "c \<in> set css" and inv: "I s" for c s
  proof (rule frame [OF inv])
    show "touches UNIV s (snd (persistManagedEntity p tx c s))"
      by (rule touches_persistManagedEntity) simp
    fix k assume k: "k \<in> K"
    show "getProp (e_props (entities (snd (persistManagedEntity p tx c s)) r)) k = getProp (e_props (entities s r)) k"
      using defined [OF inv k] apart [OF c inv k]
      by (intro persistManagedEntity_keeps_name) simp_all
  qed
  have resolved: "I (snd (forEach (processProperties p) css st))"
    using start resolve by (rule forEach_invariant [where I = I])
  have inserted: "I (snd (forEach (persistNewEntity p tx) css (snd (forEach (processProperties p) css st))))"
    using resolved insert by (rule forEach_invariant [where I = I])
  have updated: "I (snd (forEach (persistManagedEntity p tx) css (snd (forEach (processProperties p) css st))))"
    using resolved update by (rule forEach_invariant [where I = I])
  have "I (snd (executeInserts p css tx st))"
    using resolved inserted by (auto simp add: executeInserts_def split: prod.splits option.splits)
  then have a: "primaryKey (entities (snd (executeInserts p css tx st)) r) = primaryKey (entities st r)"
    by (rule kept)
  have "I (snd (executeUpdates p css tx st))"
    using resolved updated by (auto simp add: executeUpdates_def split: prod.splits option.splits)
  then have b: "primaryKey (entities (snd (executeUpdates p css tx st)) r) = primaryKey (entities st r)"
    by (rule kept)
  have d: "primaryKey (entities (snd (executeDeletes p css tx st)) r) = primaryKey (entities st r)"
    by (simp add: executeDeletes_entities)
  have t: "e_meta (entities (mapReturnedValues p r res meta' st) r) = e_meta (entities st r)"
    by (rule mapReturnedValues_meta)
  have e: "primaryKey (entities (mapReturnedValues p r res meta' st) r) = primaryKey (entities st r)"
    using keys t by (intro primaryKey_agree) (simp_all add: K_def mapReturnedValues_keeps_defined)
  have f: "getProp (e_props (entities (mapReturnedValues p r res meta' st) r)) k = getProp (e_props (entities st r)) k"
    if "isDefined (getProp (e_props (entities st r)) k)" for k
    using that by (rule mapReturnedValues_keeps_defined)
  have g: "primaryKey (entities (snd (mapPrimaryKey p meta' v c st)) r) = primaryKey (entities st r)"
    if "cs_entity (changeSets st c) = r" "length (m_primaryKeys (e_meta (entities st r))) \<le> 1" for c
    using mapPrimaryKey_keeps_defined [of st c p meta' v] that held by simp
  show ?thesis
    using a b d e f g by blast
qed


text \<open>
  \<open>User{id: 42}\<close> is inserted through a driver that returns the row \<open>{id: 5}\<close> next to the
  insert id 7: its key is 42 after \<open>executeInserts\<close>, as it is after \<open>mapReturnedValues\<close>
  with that row and after \<open>mapPrimaryKey\<close> with the id 7. \<open>User{id: 42, version: 3}\<close> is
  updated: its key is 42 after \<open>executeUpdates\<close>, while its version has become 9.
\<close>

theorem defined_key_is_kept_witness:
  "isDefined (primaryKey (entities (insState [(''id'', VNum 42)]) 0))
   \<and> length (m_primaryKeys (e_meta (entities (insState [(''id'', VNum 42)]) 0))) = 1
   \<and> cs_entity (changeSets (insState [(''id'', VNum 42)]) 0) = 0
   \<and> metadata (mkPersister returningDriver) (cs_name (changeSets (insState [(''id'', VNum 42)]) 0)) = Some userMeta
   \<and> list_all (\<lambda>q. \<not> computes (changeSets (insState [(''id'', VNum 42)]) 0) q) (m_properties userMeta)
   \<and> versionOf userMeta = Some ''version''
   \<and> ''version'' \<notin> set (keyNames (e_meta (entities (insState [(''id'', VNum 42)]) 0)))
   \<and> primaryKey (entities (insState [(''id'', VNum 42)]) 0) = VNum 42
   \<and> nativeInsert (driver (mkPersister returningDriver)) [] ''User'' [(''id'', VNum 42)] None
        = Inr \<lparr>affectedRows = VNum 1, insertId = VNum 7, row = Some [(''id'', VNum 5)]\<rparr>
   \<and> primaryKey (entities (snd (executeInserts (mkPersister returningDriver) [0] None (insState [(''id'', VNum 42)]))) 0) = VNum 42
   \<and> primaryKey (entities (snd (executeDeletes (mkPersister returningDriver) [0] None (insState [(''id'', VNum 42)]))) 0) = VNum 42
   \<and> primaryKey (entities (mapReturnedValues (mkPersister returningDriver) 0
         \<lparr>affectedRows = VNum 1, insertId = VNum 7, row = Some [(''id'', VNum 5)]\<rparr> userMeta (insState [(''id'', VNum 42)])) 0) = VNum 42
   \<and> primaryKey (entities (snd (mapPrimaryKey (mkPersister returningDriver) userMeta (VNum 7) 0 (insState [(''id'', VNum 42)]))) 0) = VNum 42
   \<and> isDefined (primaryKey (entities (updState (VNum 3)) 0))
   \<and> length (m_primaryKeys (e_meta (entities (updState (VNum 3)) 0))) = 1
   \<and> metadata (mkPersister okDriver) (cs_name (changeSets (updState (VNum 3)) 0)) = Some userMeta
   \<and> list_all (\<lambda>q. \<not> computes (changeSets (updState (VNum 3)) 0) q) (m_properties userMeta)
   \<and> ''version'' \<notin> set (keyNames (e_meta (entities (updState (VNum 3)) 0)))
   \<and> primaryKey (entities (updState (VNum 3)) 0) = VNum 42
   \<and> primaryKey (entities (snd (executeUpdates (mkPersister okDriver) [0] None (updState (VNum 3)))) 0) = VNum 42"
proof -
  let ?P = "mkPersister returningDriver"
  let ?I = "insState [(''id'', VNum 42)]"
  let ?res = "\<lparr>affectedRows = VNum 1, insertId = VNum 7, row = Some [(''id'', VNum 5)]\<rparr>"
  let ?Q = "mkPersister okDriver"
  let ?U = "updState (VNum 3)"
  have versioned: "versionOf userMeta = Some ''version''"
    by (simp add: versionOf_def example_simps)
  have plain: "list_all (\<lambda>q. \<not> computes cs q) (m_properties userMeta)" for cs
    by (simp add: example_simps computes_def)
  have shape_i: "cs_entity (changeSets ?I c) = 0" "e_meta (entities ?I r) = userMeta"
    "cs_name (changeSets ?I c) = ''User''" for c r
    by (simp_all add: example_simps insState_def)
  have shape_u: "cs_entity (changeSets ?U c) = 0" "e_meta (entities ?U r) = userMeta"
    "cs_name (changeSets ?U c) = ''User''" for c r
    by (simp_all add: example_simps updState_def)
  have user: "metadata (mkPersister d) ''User'' = Some userMeta" "length (m_primaryKeys userMeta) = 1"
    "''version'' \<notin> set (keyNames userMeta)" for d
    by (simp_all add: example_simps keyNames_def firstKey_def)
  have key_i: "primaryKey (entities ?I 0) = VNum 42"
    by (simp add: example_simps insState_def primaryKey_def firstKey_def getProp_def)
  have key_u: "primaryKey (entities ?U 0) = VNum 42"
    by (simp add: example_simps updState_def primaryKey_def firstKey_def getProp_def)
  have reply: "nativeInsert (driver ?P) [] ''User'' [(''id'', VNum 42)] None = Inr ?res"
    by (simp add: example_simps returningDriver_def)
  have held_i: "isDefined (primaryKey (entities ?I 0))" and held_u: "isDefined (primaryKey (entities ?U 0))"
    by (simp_all add: key_i key_u)
  have parts_i: "1 < length (m_primaryKeys (e_meta (entities ?I 0))) \<longrightarrow>
      (\<forall>k \<in> set (m_primaryKeys (e_meta (entities ?I 0))). isDefined (getProp (e_props (entities ?I 0)) k))"
    by (simp add: shape_i user)
  have parts_u: "1 < length (m_primaryKeys (e_meta (entities ?U 0))) \<longrightarrow>
      (\<forall>k \<in> set (m_primaryKeys (e_meta (entities ?U 0))). isDefined (getProp (e_props (entities ?U 0)) k))"
    by (simp add: shape_u user)
  have rules_i: "\<forall>c \<in> set [0]. \<forall>meta q.
      cs_entity (changeSets ?I c) = 0 \<and> metadata ?P (cs_name (changeSets ?I c)) = Some meta
      \<and> q \<in> set (m_properties meta) \<and> computes (changeSets ?I c) q
      \<longrightarrow> \<not> p_primary q \<and> p_name q \<notin> set (keyNames (e_meta (entities ?I 0)))"
    using plain [of "changeSets ?I 0"] by (auto simp add: shape_i user list_all_iff)
  have rules_u: "\<forall>c \<in> set [0]. \<forall>meta q.
      cs_entity (changeSets ?U c) = 0 \<and> metadata ?Q (cs_name (changeSets ?U c)) = Some meta
      \<and> q \<in> set (m_properties meta) \<and> computes (changeSets ?U c) q
      \<longrightarrow> \<not> p_primary q \<and> p_name q \<notin> set (keyNames (e_meta (entities ?U 0)))"
    using plain [of "changeSets ?U 0"] by (auto simp add: shape_u user list_all_iff)
  have version_i: "\<forall>c \<in> set [0]. \<forall>meta vp.
      cs_entity (changeSets ?I c) = 0 \<and> metadata ?P (cs_name (changeSets ?I c)) = Some meta \<and> versionOf meta = Some vp
      \<longrightarrow> vp \<notin> set (keyNames (e_meta (entities ?I 0)))"
    using versioned by (auto simp add: shape_i user)
  have version_u: "\<forall>c \<in> set [0]. \<forall>meta vp.
      cs_entity (changeSets ?U c) = 0 \<and> metadata ?Q (cs_name (changeSets ?U c)) = Some meta \<and> versionOf meta = Some vp
      \<longrightarrow> vp \<notin> set (keyNames (e_meta (entities ?U 0)))"
    using versioned by (auto simp add: shape_u user)
  note main_i = defined_key_is_kept [of ?I 0 "[0]" ?P None ?res userMeta "VNum 7",
      OF held_i parts_i rules_i version_i, unfolded key_i]
  note main_u = defined_key_is_kept [of ?U 0 "[0]" ?Q None ?res userMeta "VNum 7",
      OF held_u parts_u rules_u version_u, unfolded key_u]
  have kept_i: "primaryKey (entities (snd (executeInserts ?P [0] None ?I)) 0) = VNum 42"
    "primaryKey (entities (snd (executeDeletes ?P [0] None ?I)) 0) = VNum 42"
    "primaryKey (entities (mapReturnedValues ?P 0 ?res userMeta ?I) 0) = VNum 42"
    using main_i by blast+
  have "cs_entity (changeSets ?I 0) = 0 \<and> length (m_primaryKeys (e_meta (entities ?I 0))) \<le> 1"
    by (simp add: shape_i user)
  then have assigned_i: "primaryKey (entities (snd (mapPrimaryKey ?P userMeta (VNum 7) 0 ?I)) 0) = VNum 42"
    using main_i by blast
  have kept_u: "primaryKey (entities (snd (executeUpdates ?Q [0] None ?U)) 0) = VNum 42"
    using main_u by blast
  show ?thesis
    using held_i held_u versioned plain kept_i assigned_i kept_u key_i key_u reply
    by (simp add: shape_i shape_u user)
qed

text \<open>
  C9 as stated fails for property resolution: an \<open>Audit\<close> entity whose key the caller set
  to 1 is inserted, the key's compute-on-create rule yields 2, and after a successful
  \<open>executeInserts\<close> the key is 2.
\<close>

theorem onCreate_overwrites_key_counterexample:
  "isDefined (primaryKey (entityOf auditInsState 0))
   \<and> primaryKey (entityOf auditInsState 0) = VNum 1
   \<and> fst (executeInserts (mkPersister okDriver) [0] None auditInsState) = None
   \<and> primaryKey (entityOf (snd (executeInserts (mkPersister okDriver) [0] None auditInsState)) 0) = VNum 2"
  by (simp add: example_simps example_states eval_defs state_simps Let_def)

subsection \<open>Primary-key assignment\<close>




subsection \<open>A driver failure in the middle of a batch\<close>

text \<open>
  C8, as amended: property resolution runs for the whole batch before the first driver
  call. If it succeeds, the change sets' entities are pairwise distinct, the change sets
  before the k-th are persisted and the driver call for the k-th fails, then
  \<open>executeInserts\<close> (and likewise \<open>executeUpdates\<close>) fails with the driver's error
  unmodified; the failed call is the last entry of the driver log and the only change
  the k-th step makes; every change set before the k-th has its persisted flag true; and
  every change set after the k-th, with the fields of its entity, is exactly as property
  resolution left it.
\<close>

theorem driver_failure_aborts_batch:
  assumes resolved: "forEach (processProperties p) (pre @ c # post) st = (None, st1)"
    and inj: "distinct (map (\<lambda>x. cs_entity (changeSets st x)) (pre @ c # post))"
  shows "(forEach (persistNewEntity p tx) pre st1 = (None, st2)
          \<and> nativeInsert (driver p) (calls st2) (cs_name (changeSets st2 c)) (cs_payload (changeSets st2 c)) tx = Inl err
          \<longrightarrow> executeInserts p (pre @ c # post) tx st =
                (Some (DriverError err),
                 st2\<lparr>calls := calls st2 @ [NativeInsert (cs_name (changeSets st2 c)) (cs_payload (changeSets st2 c)) tx (Inl err)]\<rparr>)
            \<and> (\<forall>c' \<in> set pre. cs_persisted (changeSets st2 c'))
            \<and> (\<forall>c' \<in> set post. changeSets st2 c' = changeSets st1 c' \<and> e_props (entityOf st2 c') = e_props (entityOf st1 c')))
       \<and> (forEach (persistManagedEntity p tx) pre st1 = (None, st2)
          \<and> metadata p (cs_name (changeSets st2 c)) = Some meta
          \<and> updateEntity p meta c tx st2 = (Inl err, st3)
          \<longrightarrow> executeUpdates p (pre @ c # post) tx st = (Some (DriverError err), st3)
            \<and> (\<exists>cond. st3 = st2\<lparr>calls := calls st2 @ [NativeUpdate (cs_name (changeSets st2 c)) cond (cs_payload (changeSets st2 c)) tx (Inl err)]\<rparr>)
            \<and> (\<forall>c' \<in> set pre. cs_persisted (changeSets st2 c'))
            \<and> (\<forall>c' \<in> set post. changeSets st2 c' = changeSets st1 c' \<and> e_props (entityOf st2 c') = e_props (entityOf st1 c')))"
proof (intro conjI impI; elim conjE)
  have same: "cs_entity (changeSets st1 x) = cs_entity (changeSets st x)" for x
    using touches_batch(3) [of "pre @ c # post" st p] resolved by (simp add: touches_def)
  {
    assume earlier: "forEach (persistNewEntity p tx) pre st1 = (None, st2)"
      and fails: "nativeInsert (driver p) (calls st2) (cs_name (changeSets st2 c)) (cs_payload (changeSets st2 c)) tx = Inl err"
    let ?st' = "st2\<lparr>calls := calls st2 @ [NativeInsert (cs_name (changeSets st2 c)) (cs_payload (changeSets st2 c)) tx (Inl err)]\<rparr>"
    have "persistNewEntity p tx c st2 = (Some (DriverError err), ?st')"
      using fails by (simp add: persistNewEntity_def Let_def)
    then have "forEach (persistNewEntity p tx) (pre @ c # post) st1 = (Some (DriverError err), ?st')"
      using earlier by (rule forEach_stops [rotated])
    then show "executeInserts p (pre @ c # post) tx st = (Some (DriverError err), ?st')"
      using resolved by (simp add: executeInserts_def)
    show "\<forall>c' \<in> set pre. cs_persisted (changeSets st2 c')"
      using earlier
      by (rule loop_marks_persisted) (auto intro: persistNewEntity_persisted touches_persistNewEntity)
    have t: "touches (set pre) st1 st2"
      using touches_batch(1) [of pre st1 p tx] earlier by simp
    show "\<forall>c' \<in> set post. changeSets st2 c' = changeSets st1 c' \<and> e_props (entityOf st2 c') = e_props (entityOf st1 c')"
      using later_untouched [OF t same inj] by blast
  }
  {
    assume earlier: "forEach (persistManagedEntity p tx) pre st1 = (None, st2)"
      and meta: "metadata p (cs_name (changeSets st2 c)) = Some meta"
      and fails: "updateEntity p meta c tx st2 = (Inl err, st3)"
    have "persistManagedEntity p tx c st2 = (Some (DriverError err), st3)"
      using meta fails by (simp add: persistManagedEntity_def)
    then have "forEach (persistManagedEntity p tx) (pre @ c # post) st1 = (Some (DriverError err), st3)"
      using earlier by (rule forEach_stops [rotated])
    then show "executeUpdates p (pre @ c # post) tx st = (Some (DriverError err), st3)"
      using resolved by (simp add: executeUpdates_def)
    show "\<exists>cond. st3 = st2\<lparr>calls := calls st2 @ [NativeUpdate (cs_name (changeSets st2 c)) cond (cs_payload (changeSets st2 c)) tx (Inl err)]\<rparr>"
      using fails by (auto simp add: updateEntity_def Let_def)
    show "\<forall>c' \<in> set pre. cs_persisted (changeSets st2 c')"
      using earlier
      by (rule loop_marks_persisted) (auto intro: persistManagedEntity_persisted touches_persistManagedEntity)
    have t: "touches (set pre) st1 st2"
      using touches_batch(2) [of pre st1 p tx] earlier by simp
    show "\<forall>c' \<in> set post. changeSets st2 c' = changeSets st1 c' \<and> e_props (entityOf st2 c') = e_props (entityOf st1 c')"
      using later_untouched [OF t same inj] by blast
  }
qed

text \<open>
  Two inserts through a driver that is down: the first call fails and the second change
  set is untouched. Two updates through a driver that fails after its first call: the
  first change set is persisted, the second update fails and aborts the batch.
\<close>

theorem driver_failure_aborts_batch_witness:
  "forEach (processProperties (mkPersister downDriver)) ([] @ 0 # [1]) insState2 = (None, insState2)
   \<and> distinct (map (\<lambda>x. cs_entity (changeSets insState2 x)) ([] @ 0 # [1]))
   \<and> forEach (persistNewEntity (mkPersister downDriver) None) [] insState2 = (None, insState2)
   \<and> nativeInsert (driver (mkPersister downDriver)) (calls insState2) (cs_name (changeSets insState2 0))
         (cs_payload (changeSets insState2 0)) None = Inl ''connection lost''
   \<and> executeInserts (mkPersister downDriver) [0, 1] None insState2 =
         (Some (DriverError ''connection lost''),
          insState2\<lparr>calls := [NativeInsert ''User'' [(''count'', VNum 1)] None (Inl ''connection lost'')]\<rparr>)
   \<and> forEach (processProperties (mkPersister flakyDriver)) ([0] @ 1 # []) updState2 = (None, updState2)
   \<and> distinct (map (\<lambda>x. cs_entity (changeSets updState2 x)) ([0] @ 1 # []))
   \<and> forEach (persistManagedEntity (mkPersister flakyDriver) None) [0] updState2 = (None, afterFirstUpdate flakyDriver)
   \<and> metadata (mkPersister flakyDriver) (cs_name (changeSets (afterFirstUpdate flakyDriver) 1)) = Some userMeta
   \<and> fst (updateEntity (mkPersister flakyDriver) userMeta 1 None (afterFirstUpdate flakyDriver)) = Inl ''connection lost''
   \<and> fst (executeUpdates (mkPersister flakyDriver) [0, 1] None updState2) = Some (DriverError ''connection lost'')
   \<and> cs_persisted (changeSets (afterFirstUpdate flakyDriver) 0)
   \<and> changeSets (afterFirstUpdate flakyDriver) 1 = changeSets updState2 1"
proof -
  let ?Pd = "mkPersister downDriver"
  let ?Pf = "mkPersister flakyDriver"
  have resolved_ins: "forEach (processProperties ?Pd) ([] @ 0 # [1]) insState2 = (None, insState2)"
    by (simp add: processProperties_def processProperty_def example_simps insState2_def getProp_def)
  have inj_ins: "distinct (map (\<lambda>x. cs_entity (changeSets insState2 x)) ([] @ 0 # [1]))"
    by (simp add: example_simps insState2_def)
  have earlier_ins: "forEach (persistNewEntity ?Pd None) [] insState2 = (None, insState2)"
    by simp
  have fails_ins: "nativeInsert (driver ?Pd) (calls insState2) (cs_name (changeSets insState2 0))
         (cs_payload (changeSets insState2 0)) None = Inl ''connection lost''"
    by (simp add: example_simps downDriver_def)
  have resolved_upd: "forEach (processProperties ?Pf) ([0] @ 1 # []) updState2 = (None, updState2)"
    by (simp add: processProperties_def processProperty_def example_simps updState2_def getProp_def)
  have inj_upd: "distinct (map (\<lambda>x. cs_entity (changeSets updState2 x)) ([0] @ 1 # []))"
    by (simp add: example_simps updState2_def)
  have first: "fst (persistManagedEntity ?Pf None 0 updState2) = None"
    "calls (afterFirstUpdate flakyDriver) \<noteq> []"
    "changeSets (afterFirstUpdate flakyDriver) 1 = changeSets updState2 1"
    "cs_persisted (changeSets (afterFirstUpdate flakyDriver) 0)"
    unfolding afterFirstUpdate_def
    by (simp_all add: persistManagedEntity_def updateEntity_def mapReturnedValues_def processOptimisticLock_def
          example_simps flakyDriver_def updState2_def state_simps versionOf_def getProp_def Let_def)
  have earlier_upd: "forEach (persistManagedEntity ?Pf None) [0] updState2 = (None, afterFirstUpdate flakyDriver)"
    using first(1) by (cases "persistManagedEntity ?Pf None 0 updState2") (simp add: afterFirstUpdate_def)
  have meta_upd: "metadata ?Pf (cs_name (changeSets (afterFirstUpdate flakyDriver) 1)) = Some userMeta"
    using first(3) by (simp add: example_simps updState2_def)
  have fails_upd: "fst (updateEntity ?Pf userMeta 1 None (afterFirstUpdate flakyDriver)) = Inl ''connection lost''"
    using first(2) by (simp add: updateEntity_def Let_def example_simps flakyDriver_def)
  then have fails_upd': "updateEntity ?Pf userMeta 1 None (afterFirstUpdate flakyDriver)
      = (Inl ''connection lost'', snd (updateEntity ?Pf userMeta 1 None (afterFirstUpdate flakyDriver)))"
    by (simp add: prod_eq_iff)
  note thm_ins = driver_failure_aborts_batch [OF resolved_ins inj_ins, of None insState2 "''connection lost''"]
  note thm_upd = driver_failure_aborts_batch [OF resolved_upd inj_upd, of None "afterFirstUpdate flakyDriver" "''connection lost''" userMeta
      "snd (updateEntity ?Pf userMeta 1 None (afterFirstUpdate flakyDriver))"]
  have ins: "executeInserts ?Pd [0, 1] None insState2 =
         (Some (DriverError ''connection lost''),
          insState2\<lparr>calls := [NativeInsert ''User'' [(''count'', VNum 1)] None (Inl ''connection lost'')]\<rparr>)"
    using thm_ins earlier_ins fails_ins by (simp add: example_simps insState2_def)
  have upd: "fst (executeUpdates ?Pf [0, 1] None updState2) = Some (DriverError ''connection lost'')"
    using thm_upd earlier_upd meta_upd fails_upd' by simp
  show ?thesis
    using resolved_ins inj_ins earlier_ins fails_ins ins resolved_upd inj_upd earlier_upd meta_upd fails_upd upd first(3,4)
    by simp
qed

text \<open>
  C8 as stated fails: later change sets are not untouched by the call. Two \<open>Audit\<close>
  updates through a driver that is down: the first update fails, and yet the second
  change set's payload and its entity's version have been written by property
  resolution (the version's compute-on-update rule yields 5).
\<close>

theorem resolution_precedes_failure_counterexample:
  "fst (executeUpdates (mkPersister downDriver) [0, 1] None auditUpdState) = Some (DriverError ''connection lost'')
   \<and> calls (snd (executeUpdates (mkPersister downDriver) [0, 1] None auditUpdState)) =
       [NativeUpdate ''Audit'' (VObj [(''id'', VNum 10), (''version'', VNum 5)]) [(''version'', VNum 5)] None (Inl ''connection lost'')]
   \<and> cs_payload (changeSets auditUpdState 1) = []
   \<and> cs_payload (changeSets (snd (executeUpdates (mkPersister downDriver) [0, 1] None auditUpdState)) 1) = [(''version'', VNum 5)]
   \<and> getProp (e_props (entityOf auditUpdState 1)) ''version'' = VNum 1
   \<and> getProp (e_props (entityOf (snd (executeUpdates (mkPersister downDriver) [0, 1] None auditUpdState)) 1)) ''version'' = VNum 5"
proof -
  let ?P = "mkPersister downDriver"
  let ?resolve = "\<lambda>c s. setEntityProp c ''version'' (VNum 5) (setPayload c ''version'' (VNum 5) s)"
  have r0: "processProperties ?P 0 auditUpdState = (None, ?resolve 0 auditUpdState)"
    by (simp add: processProperties_def processProperty_def example_simps auditUpdState_def getProp_def state_simps Let_def)
  have r1: "processProperties ?P 1 (?resolve 0 auditUpdState) = (None, ?resolve 1 (?resolve 0 auditUpdState))"
    by (simp add: processProperties_def processProperty_def example_simps auditUpdState_def getProp_def state_simps Let_def)
  have resolved: "forEach (processProperties ?P) [0, 1] auditUpdState = (None, ?resolve 1 (?resolve 0 auditUpdState))"
    using r1 by (simp add: r0)
  have failed: "fst (persistManagedEntity ?P None 0 (?resolve 1 (?resolve 0 auditUpdState))) = Some (DriverError ''connection lost'')"
    "calls (snd (persistManagedEntity ?P None 0 (?resolve 1 (?resolve 0 auditUpdState)))) =
       [NativeUpdate ''Audit'' (VObj [(''id'', VNum 10), (''version'', VNum 5)]) [(''version'', VNum 5)] None (Inl ''connection lost'')]"
    "changeSets (snd (persistManagedEntity ?P None 0 (?resolve 1 (?resolve 0 auditUpdState)))) = changeSets (?resolve 1 (?resolve 0 auditUpdState))"
    "entities (snd (persistManagedEntity ?P None 0 (?resolve 1 (?resolve 0 auditUpdState)))) = entities (?resolve 1 (?resolve 0 auditUpdState))"
    by (simp_all add: persistManagedEntity_def updateEntity_def example_simps downDriver_def auditUpdState_def state_simps
          versionOf_def getProp_def setProp_def getPrimaryKeyCond_def Let_def)
  have run: "executeUpdates ?P [0, 1] None auditUpdState = persistManagedEntity ?P None 0 (?resolve 1 (?resolve 0 auditUpdState))"
    using failed(1) resolved
    by (cases "persistManagedEntity ?P None 0 (?resolve 1 (?resolve 0 auditUpdState))") (simp add: executeUpdates_def)
  show ?thesis
    unfolding run failed
    by (simp add: example_simps auditUpdState_def state_simps getProp_def setProp_def)
qed

subsection \<open>A lock failure in the middle of a batch\<close>

text \<open>
  C2, as amended: in an update batch of pairwise distinct entities whose property
  resolution succeeds and whose change sets before the k-th are persisted, let the k-th
  change set be an UPDATE of a versioned type for which the driver reports a falsy
  (zero) affected-row count. Then \<open>executeUpdates\<close> fails with the
  \<open>OptimisticLockError\<close> for that change set's entity; the k-th update is the last
  entry of the driver log, so neither a follow-up lookup nor a driver call for a later
  change set is issued; the k-th change set's persisted flag is what it was before the
  call; and the entity's version property holds the value it had before the call,
  provided that value was defined and the version property carries no
  compute-on-update rule.
\<close>

theorem lock_failure_aborts_batch:
  assumes resolved: "forEach (processProperties p) (pre @ c # post) st = (None, st1)"
    and inj: "distinct (map (\<lambda>x. cs_entity (changeSets st x)) (pre @ c # post))"
    and earlier: "forEach (persistManagedEntity p tx) pre st1 = (None, st2)"
    and meta: "metadata p (cs_name (changeSets st c)) = Some meta"
    and versioned: "versionOf meta = Some vp"
    and update: "cs_type (changeSets st c) = UPDATE"
    and reply: "updateEntity p meta c tx st2 = (Inr res, st3)"
    and zero: "\<not> truthy (affectedRows res)"
  shows "fst (executeUpdates p (pre @ c # post) tx st) = Some (OptimisticLockError (cs_entity (changeSets st c)))
       \<and> (\<exists>cond. calls (snd (executeUpdates p (pre @ c # post) tx st)) =
             calls st2 @ [NativeUpdate (cs_name (changeSets st c)) cond (cs_payload (changeSets st2 c)) tx (Inr res)])
       \<and> cs_persisted (changeSets (snd (executeUpdates p (pre @ c # post) tx st)) c) = cs_persisted (changeSets st c)
       \<and> ((\<forall>q \<in> set (m_properties meta). p_name q = vp \<longrightarrow> p_onUpdate q = None)
            \<and> isDefined (getProp (e_props (entityOf st c)) vp)
          \<longrightarrow> getProp (e_props (entityOf (snd (executeUpdates p (pre @ c # post) tx st)) c)) vp
                = getProp (e_props (entityOf st c)) vp)"
proof -
  let ?css = "pre @ c # post"
  let ?r = "cs_entity (changeSets st c)"
  have t1: "touches (set ?css) st st1"
    using touches_batch(3) [of ?css st p] resolved by simp
  have t2: "touches (set pre) st1 st2"
    using touches_batch(2) [of pre st1 p tx] earlier by simp
  have shape1: "cs_entity (changeSets st1 x) = cs_entity (changeSets st x)" for x
    using t1 by (simp add: touches_def)
  have shape2: "cs_entity (changeSets st2 x) = cs_entity (changeSets st x)"
    "cs_name (changeSets st2 x) = cs_name (changeSets st x)" "cs_type (changeSets st2 x) = cs_type (changeSets st x)" for x
    using t1 t2 by (simp_all add: touches_def)
  have out: "c \<notin> set pre" "?r \<notin> (\<lambda>x. cs_entity (changeSets st1 x)) ` set pre"
    using inj by (auto simp add: shape1)
  have st3: "st3 = st2\<lparr>calls := calls st2 @ [NativeUpdate (cs_name (changeSets st2 c))
                (case versionOf meta of
                    None \<Rightarrow> primaryKey (entityOf st2 c)
                  | Some vp \<Rightarrow>
                      if \<not> truthy (getProp (e_props (entityOf st2 c)) vp) then primaryKey (entityOf st2 c)
                      else VObj (setProp (getPrimaryKeyCond (e_props (entityOf st2 c)) (m_primaryKeys meta)) vp (getProp (e_props (entityOf st2 c)) vp)))
                (cs_payload (changeSets st2 c)) tx (Inr res)]\<rparr>"
    using reply by (auto simp add: updateEntity_def Let_def)
  define final where "final = mapReturnedValues p ?r res meta st3"
  have step: "persistManagedEntity p tx c st2 = (Some (OptimisticLockError ?r), final)"
    using meta reply versioned update zero
    by (simp add: persistManagedEntity_def shape2 processOptimisticLock_def Let_def final_def st3)
  have run: "executeUpdates p ?css tx st = (Some (OptimisticLockError ?r), final)"
    using resolved forEach_stops [OF earlier step] by (simp add: executeUpdates_def)
  have log: "\<exists>cond. calls final = calls st2 @ [NativeUpdate (cs_name (changeSets st c)) cond (cs_payload (changeSets st2 c)) tx (Inr res)]"
    by (simp add: final_def st3 shape2)
  have "changeSets final c = changeSets st1 c"
    using t2 out(1) by (simp add: final_def st3 touches_def)
  moreover have "cs_persisted (changeSets st1 c) = cs_persisted (changeSets st c)"
    using resolution_keeps_persisted [of p ?css st c] resolved by simp
  ultimately have flag: "cs_persisted (changeSets final c) = cs_persisted (changeSets st c)"
    by simp
  have ent: "cs_entity (changeSets final c) = ?r"
    by (simp add: final_def st3 shape2)
  have version: "getProp (e_props (entities final ?r)) vp = getProp (e_props (entities st ?r)) vp"
    if plain: "\<forall>q \<in> set (m_properties meta). p_name q = vp \<longrightarrow> p_onUpdate q = None"
      and held: "isDefined (getProp (e_props (entities st ?r)) vp)"
  proof -
    have "getProp (e_props (entityOf (snd (forEach (processProperties p) ?css st)) c)) vp = getProp (e_props (entityOf st c)) vp"
      by (rule resolution_keeps_field [OF inj update meta plain]) simp
    then have f1: "getProp (e_props (entities st1 ?r)) vp = getProp (e_props (entities st ?r)) vp"
      using resolved by (simp add: shape1)
    have "e_props (entities st2 ?r) = e_props (entities st1 ?r)"
      using t2 out(2) unfolding touches_def by blast
    then have f3: "getProp (e_props (entities st3 ?r)) vp = getProp (e_props (entities st ?r)) vp"
      using f1 by (simp add: st3)
    then have "isDefined (getProp (e_props (entities st3 ?r)) vp)"
      using held by simp
    then have "getProp (e_props (entities final ?r)) vp = getProp (e_props (entities st3 ?r)) vp"
      unfolding final_def by (rule mapReturnedValues_keeps_defined)
    then show ?thesis using f3 by simp
  qed
  show ?thesis
    unfolding run using log flag version by (simp add: ent)
qed

text \<open>
  The spec's example inside a batch: the first update succeeds, for the second
  (\<open>User{id:43, version:1}\<close>) the driver reports zero rows; the call fails with the lock
  error for that entity, whose version remains 1 and whose change set is not persisted.
\<close>

theorem lock_failure_aborts_batch_witness:
  "forEach (processProperties (mkPersister staleDriver)) ([0] @ 1 # []) updState2 = (None, updState2)
   \<and> distinct (map (\<lambda>x. cs_entity (changeSets updState2 x)) ([0] @ 1 # []))
   \<and> forEach (persistManagedEntity (mkPersister staleDriver) None) [0] updState2 = (None, afterFirstUpdate staleDriver)
   \<and> metadata (mkPersister staleDriver) (cs_name (changeSets updState2 1)) = Some userMeta
   \<and> versionOf userMeta = Some ''version''
   \<and> cs_type (changeSets updState2 1) = UPDATE
   \<and> fst (updateEntity (mkPersister staleDriver) userMeta 1 None (afterFirstUpdate staleDriver)) = Inr (okUpdate\<lparr>affectedRows := VNum 0\<rparr>)
   \<and> \<not> truthy (affectedRows (okUpdate\<lparr>affectedRows := VNum 0\<rparr>))
   \<and> list_all (\<lambda>q. p_name q \<noteq> ''version'' \<or> p_onUpdate q = None) (m_properties userMeta)
   \<and> getProp (e_props (entityOf updState2 1)) ''version'' = VNum 1
   \<and> fst (executeUpdates (mkPersister staleDriver) [0, 1] None updState2) = Some (OptimisticLockError 1)
   \<and> cs_persisted (changeSets (snd (executeUpdates (mkPersister staleDriver) [0, 1] None updState2)) 0)
   \<and> \<not> cs_persisted (changeSets (snd (executeUpdates (mkPersister staleDriver) [0, 1] None updState2)) 1)
   \<and> getProp (e_props (entityOf (snd (executeUpdates (mkPersister staleDriver) [0, 1] None updState2)) 1)) ''version'' = VNum 1"
proof -
  let ?P = "mkPersister staleDriver"
  let ?final = "snd (executeUpdates ?P ([0] @ 1 # []) None updState2)"
  have resolved: "forEach (processProperties ?P) ([0] @ 1 # []) updState2 = (None, updState2)"
    by (simp add: processProperties_def processProperty_def example_simps updState2_def getProp_def)
  have inj: "distinct (map (\<lambda>x. cs_entity (changeSets updState2 x)) ([0] @ 1 # []))"
    by (simp add: example_simps updState2_def)
  have first: "fst (persistManagedEntity ?P None 0 updState2) = None"
    "calls (afterFirstUpdate staleDriver) \<noteq> []"
    "cs_persisted (changeSets (afterFirstUpdate staleDriver) 0)"
    unfolding afterFirstUpdate_def
    by (simp_all add: persistManagedEntity_def updateEntity_def mapReturnedValues_def processOptimisticLock_def
          example_simps staleDriver_def updState2_def state_simps versionOf_def getProp_def Let_def)
  have earlier: "forEach (persistManagedEntity ?P None) [0] updState2 = (None, afterFirstUpdate staleDriver)"
    using first(1) by (cases "persistManagedEntity ?P None 0 updState2") (simp add: afterFirstUpdate_def)
  have meta: "metadata ?P (cs_name (changeSets updState2 1)) = Some userMeta"
    by (simp add: example_simps updState2_def)
  have versioned: "versionOf userMeta = Some ''version''"
    by (simp add: versionOf_def example_simps)
  have update: "cs_type (changeSets updState2 1) = UPDATE"
    by (simp add: example_simps updState2_def)
  have stale: "fst (updateEntity ?P userMeta 1 None (afterFirstUpdate staleDriver)) = Inr (okUpdate\<lparr>affectedRows := VNum 0\<rparr>)"
    using first(2) by (simp add: updateEntity_def Let_def example_simps staleDriver_def)
  then have reply: "updateEntity ?P userMeta 1 None (afterFirstUpdate staleDriver)
      = (Inr (okUpdate\<lparr>affectedRows := VNum 0\<rparr>), snd (updateEntity ?P userMeta 1 None (afterFirstUpdate staleDriver)))"
    by (simp add: prod_eq_iff)
  have zero: "\<not> truthy (affectedRows (okUpdate\<lparr>affectedRows := VNum 0\<rparr>))"
    by simp
  have plain: "list_all (\<lambda>q. p_name q \<noteq> ''version'' \<or> p_onUpdate q = None) (m_properties userMeta)"
    by (simp add: example_simps)
  then have plain': "\<forall>q \<in> set (m_properties userMeta). p_name q = ''version'' \<longrightarrow> p_onUpdate q = None"
    by (auto simp add: list_all_iff)
  have held: "getProp (e_props (entityOf updState2 1)) ''version'' = VNum 1"
    by (simp add: example_simps updState2_def getProp_def)
  have before: "\<not> cs_persisted (changeSets updState2 1)" "cs_entity (changeSets updState2 1) = 1"
    by (simp_all add: example_simps updState2_def)
  note inst = lock_failure_aborts_batch [OF resolved inj earlier meta versioned update reply zero]
  have failed: "fst (executeUpdates ?P ([0] @ 1 # []) None updState2) = Some (OptimisticLockError 1)"
    using inst before(2) by simp
  have flag: "\<not> cs_persisted (changeSets ?final 1)"
    using inst before(1) by simp
  have version: "getProp (e_props (entityOf ?final 1)) ''version'' = VNum 1"
    using inst plain' held by simp
  have t: "touches (set [1]) (afterFirstUpdate staleDriver) (snd (persistManagedEntity ?P None 1 (afterFirstUpdate staleDriver)))"
    by (rule touches_persistManagedEntity) simp
  have "?final = snd (persistManagedEntity ?P None 1 (afterFirstUpdate staleDriver))"
    using resolved earlier
    by (simp add: executeUpdates_def split: prod.splits option.splits)
  then have persisted0: "cs_persisted (changeSets ?final 0)"
    using t first(3) by (simp add: touches_def)
  show ?thesis
    using resolved inj earlier meta versioned update stale zero plain held failed persisted0 flag version
    by simp
qed

text \<open>
  C2 as stated fails when the version property carries a compute-on-update rule: the
  \<open>Audit\<close> entity holds version 1, property resolution writes 5, the driver reports zero
  rows, and the call fails with the lock error while the entity holds version 5.
\<close>

theorem version_rule_counterexample:
  "fst (executeUpdates (mkPersister lostDriver) [0] None auditUpdState) = Some (OptimisticLockError 0)
   \<and> getProp (e_props (entityOf auditUpdState 0)) ''version'' = VNum 1
   \<and> getProp (e_props (entityOf (snd (executeUpdates (mkPersister lostDriver) [0] None auditUpdState)) 0)) ''version'' = VNum 5"
proof -
  let ?P = "mkPersister lostDriver"
  let ?resolved = "setEntityProp 0 ''version'' (VNum 5) (setPayload 0 ''version'' (VNum 5) auditUpdState)"
  have resolved: "forEach (processProperties ?P) [0] auditUpdState = (None, ?resolved)"
    by (simp add: processProperties_def processProperty_def example_simps auditUpdState_def getProp_def state_simps Let_def)
  have failed: "fst (persistManagedEntity ?P None 0 ?resolved) = Some (OptimisticLockError 0)"
    "entities (snd (persistManagedEntity ?P None 0 ?resolved)) = entities ?resolved"
    "changeSets (snd (persistManagedEntity ?P None 0 ?resolved)) = changeSets ?resolved"
    by (simp_all add: persistManagedEntity_def updateEntity_def mapReturnedValues_def processOptimisticLock_def
          example_simps lostDriver_def auditUpdState_def state_simps versionOf_def getProp_def setProp_def Let_def)
  have run: "executeUpdates ?P [0] None auditUpdState = persistManagedEntity ?P None 0 ?resolved"
    using failed(1) resolved
    by (cases "persistManagedEntity ?P None 0 ?resolved") (simp add: executeUpdates_def)
  show ?thesis
    unfolding run failed
    by (simp add: example_simps auditUpdState_def state_simps getProp_def setProp_def)
qed

subsection \<open>Insert flow\<close>





end
